theory Spec2Isabelle
  imports Complex_Main "HOL-Library.Sublist" "HOL-Library.Product_Lexorder"
begin

section \<open>Data model of vtkPolyDataBooleanFilter\<close>

text \<open>
  Ids (\<^verbatim>\<open>vtkIdType\<close>) that index points, cells, polygons and regions are natural
  numbers here: the modelled code never computes with them and never stores the
  \<^verbatim>\<open>NOTSET\<close> marker in the fields kept below.  The values of the
  \<^verbatim>\<open>OrigCellIds\<close> array are integers.  Coordinates are of an arbitrary type
  \<open>'c\<close>; where the source compares them through \<^verbatim>\<open>Point3d\<close> (declared in
  Utilities.h, which is not among the sources), the comparison key is a parameter
  \<open>key\<close>.
\<close>

text \<open>
  Modelled from the spec: the enum \<^verbatim>\<open>Capt\<close> and its mask \<^verbatim>\<open>Capt::Boundary\<close> are
  declared in vtkPolyDataBooleanFilter.h, which is not among the sources.  The spec
  lists the capture classes None, A, B, Edge and Branched; a boundary capture is a
  capture on a vertex (A, B) or on an edge.
\<close>

datatype Capt = Capt_Not | Capt_Edge | Capt_A | Capt_B | Capt_Branched

fun Boundary :: "Capt \<Rightarrow> bool" where
  "Boundary Capt_Edge = True"
| "Boundary Capt_A = True"
| "Boundary Capt_B = True"
| "Boundary Capt_Not = False"
| "Boundary Capt_Branched = False"

text \<open>
  \<^verbatim>\<open>StripPt\<close>: the fields the modelled functions read (\<^verbatim>\<open>ind\<close>, here
  \<open>spInd\<close>, \<^verbatim>\<open>capt\<close> and \<^verbatim>\<open>cutPt\<close>).  The host edge, its parameter and the raw
  coordinate are read only by the geometric code that is taken as a parameter below.
\<close>

record 'c StripPt =
  spInd :: nat
  capt :: Capt
  cutPt :: 'c

text \<open>\<^verbatim>\<open>StripPtR\<close>: a reference to a StripPt by its index, with the id of its strip.\<close>

record StripPtR =
  ind :: nat
  strip :: nat

type_synonym StripType = "StripPtR list"

text \<open>
  \<^verbatim>\<open>PStrips\<close>: the ring of the polygon, the map \<^verbatim>\<open>pts\<close> from contact point to
  StripPt (a \<^verbatim>\<open>std::map\<close>, here the list of its entries in key order) and the strips.
\<close>

record 'c PStrips =
  poly :: "nat list"
  pts :: "(nat \<times> 'c StripPt) list"
  strips :: "StripType list"

type_synonym 'c PolyStripsType = "(nat \<times> 'c PStrips) list"

text \<open>
  A \<^verbatim>\<open>vtkPolyData\<close>: points, cells (type and point ids) and the cell array
  \<^verbatim>\<open>OrigCellIds\<close>.  \<^verbatim>\<open>DeleteCell\<close> only changes the type of the cell to
  \<^verbatim>\<open>VTK_EMPTY_CELL\<close>; the links used by \<^verbatim>\<open>GetPointCells\<close> are left as built.
  The links of VTK hold a cell once for every use of the point by the cell, so
  \<^verbatim>\<open>GetPointCells\<close> gives a line with both ends at the point twice.
\<close>

datatype CellType = VTK_EMPTY_CELL | VTK_LINE | VTK_POLYGON

record Cell =
  cellType :: CellType
  cellPts :: "nat list"

record 'c PolyData =
  points :: "'c list"
  cells :: "Cell list"
  origCellIds :: "int list"

definition GetPoint :: "'c PolyData \<Rightarrow> nat \<Rightarrow> 'c" where
  "GetPoint pd i = points pd ! i"

definition GetCellPoints :: "Cell list \<Rightarrow> nat \<Rightarrow> nat list" where
  "GetCellPoints cs i = cellPts (cs ! i)"

definition GetPointCells :: "Cell list \<Rightarrow> nat \<Rightarrow> nat list" where
  "GetPointCells cs p =
     concat (map (\<lambda>i. map (\<lambda>q. i) (filter (\<lambda>q. q = p) (cellPts (cs ! i)))) [0..<length cs])"

definition DeleteCell :: "Cell list \<Rightarrow> nat \<Rightarrow> Cell list" where
  "DeleteCell cs i = (if i < length cs then cs[i := (cs ! i)\<lparr>cellType := VTK_EMPTY_CELL\<rparr>] else cs)"

definition GetCellType :: "Cell list \<Rightarrow> nat \<Rightarrow> CellType" where
  "GetCellType cs i = cellType (cs ! i)"

section \<open>HasArea\<close>

text \<open>
  \<^verbatim>\<open>
  bool area = true;
  std::size_t i, n = strip.size();
  if (n%2 == 1) {
      for (i = 0; i < (n-1)/2; i++) {
          area = strip[i].ind != strip[n-i-1].ind;
      }
  }
  return area;
  \<close>
  The loop assigns \<^verbatim>\<open>area\<close> anew in every round.
\<close>

definition HasArea :: "StripType \<Rightarrow> bool" where
  "HasArea s =
     (let n = length s in
      if n mod 2 = 1
      then foldl (\<lambda>area i. ind (s ! i) \<noteq> ind (s ! (n - i - 1))) True [0..<(n - 1) div 2]
      else True)"

text \<open>The property of the spec: the sequence of indices reads the same in both directions.\<close>

definition palindrome :: "StripType \<Rightarrow> bool" where
  "palindrome s = (map ind s = rev (map ind s))"

section \<open>RemoveDuplicates\<close>

text \<open>
  The contact lines of one polygon, by cell id.  A line is kept (in the vector
  \<^verbatim>\<open>_lines\<close>, here \<open>kept\<close>) when no line kept before joins the same two points, in
  either direction.
\<close>

definition line_ends :: "Cell list \<Rightarrow> nat \<Rightarrow> nat \<times> nat" where
  "line_ends contLines i = (GetCellPoints contLines i ! 0, GetCellPoints contLines i ! 1)"

definition same_ends :: "nat \<times> nat \<Rightarrow> nat \<times> nat \<Rightarrow> bool" where
  "same_ends p q = ((fst p = fst q \<and> snd p = snd q) \<or> (fst p = snd q \<and> snd p = fst q))"

fun RemoveDuplicates_loop ::
  "Cell list \<Rightarrow> nat list \<Rightarrow> (nat \<times> nat \<times> nat) list \<Rightarrow> (nat \<times> nat \<times> nat) list" where
  "RemoveDuplicates_loop contLines [] kept = kept"
| "RemoveDuplicates_loop contLines (i # ids) kept =
     (let ab = line_ends contLines i in
      if list_ex (\<lambda>l. same_ends (snd l) ab) kept
      then RemoveDuplicates_loop contLines ids kept
      else RemoveDuplicates_loop contLines ids (kept @ [(i, ab)]))"

definition RemoveDuplicates :: "Cell list \<Rightarrow> nat list \<Rightarrow> nat list" where
  "RemoveDuplicates contLines lines =
     (let kept = RemoveDuplicates_loop contLines lines [] in
      if length kept \<noteq> length lines then map fst kept else lines)"

text \<open>
  The head of \<^verbatim>\<open>GetPolyStrips\<close>: the lines are grouped by the polygon they cross
  (\<^verbatim>\<open>polyLines[poly].push_back(i)\<close>, a \<^verbatim>\<open>std::map\<close> in key order), each group is
  deduplicated in place, and strip assembly later reads the endpoints of the group's
  lines into its deque \<^verbatim>\<open>_lines\<close>.
\<close>

fun push_back_at :: "'k::linorder \<Rightarrow> 'v \<Rightarrow> ('k \<times> 'v list) list \<Rightarrow> ('k \<times> 'v list) list" where
  "push_back_at p i [] = [(p, [i])]"
| "push_back_at p i ((q, ls) # m) =
     (if p = q then (q, ls @ [i]) # m
      else if p < q then (p, [i]) # (q, ls) # m
      else (q, ls) # push_back_at p i m)"

definition polyLines :: "nat list \<Rightarrow> (nat \<times> nat list) list" where
  "polyLines conts = foldl (\<lambda>m i. push_back_at (conts ! i) i m) [] [0..<length conts]"

definition dedupLines :: "Cell list \<Rightarrow> nat list \<Rightarrow> (nat \<times> nat list) list" where
  "dedupLines contLines conts =
     map (\<lambda>e. (fst e, RemoveDuplicates contLines (snd e))) (polyLines conts)"

definition assembly_lines :: "Cell list \<Rightarrow> nat list \<Rightarrow> (nat \<times> nat) list" where
  "assembly_lines contLines lines = map (line_ends contLines) lines"

text \<open>
  The reference, in the words of the claim: a line is kept exactly when no line listed
  before it (kept or not, \<open>seen\<close>) joins the same two points.
\<close>

fun first_of_ends :: "Cell list \<Rightarrow> nat list \<Rightarrow> nat list \<Rightarrow> nat list" where
  "first_of_ends contLines seen [] = []"
| "first_of_ends contLines seen (i # ids) =
     (if list_ex (\<lambda>j. same_ends (line_ends contLines j) (line_ends contLines i)) seen
      then first_of_ends contLines (seen @ [i]) ids
      else i # first_of_ends contLines (seen @ [i]) ids)"

section \<open>GetPolyStrips\<close>

subsection \<open>The search for equal capture points\<close>

text \<open>
  \<^verbatim>\<open>
  std::map<Point3d, std::set<vtkIdType>> collapsed;
  for (itr = polyStrips.begin(); itr != polyStrips.end(); ++itr) {
      ...
      for (itr2 = pts.begin(); itr2 != pts.end(); ++itr2) {
          StripPt &sp = itr2->second;
          if (sp.capt & Capt::Boundary) {
              auto inds = collapsed[{sp.cutPt[0], sp.cutPt[1], sp.cutPt[2]}];
              inds.emplace(sp.ind);
              if (inds.size() > 1) {
                  return true;
              }
          }
      }
  }
  \<close>
  \<^verbatim>\<open>collapsed[k]\<close> inserts an empty set at an absent key and yields the stored set;
  \<^verbatim>\<open>auto inds\<close> is a copy of it, so \<^verbatim>\<open>emplace\<close> changes the copy and the map
  keeps what it had.  A \<^verbatim>\<open>std::set\<close> is the sorted list of its elements.
\<close>

definition emplace :: "nat \<Rightarrow> nat list \<Rightarrow> nat list" where
  "emplace x s = (if x \<in> set s then s else insort x s)"

fun collapsed_pts ::
  "('c \<Rightarrow> 'k) \<Rightarrow> ('k \<Rightarrow> nat list option) \<Rightarrow> 'c StripPt list \<Rightarrow> bool \<times> ('k \<Rightarrow> nat list option)" where
  "collapsed_pts key collapsed [] = (False, collapsed)"
| "collapsed_pts key collapsed (sp # sps) =
     (if Boundary (capt sp)
      then (let k = key (cutPt sp);
                stored = (case collapsed k of None \<Rightarrow> [] | Some s \<Rightarrow> s);
                collapsed' = collapsed(k \<mapsto> stored);
                inds = emplace (spInd sp) stored
            in if length inds > 1 then (True, collapsed')
               else collapsed_pts key collapsed' sps)
      else collapsed_pts key collapsed sps)"

fun collapsed_polys ::
  "('c \<Rightarrow> 'k) \<Rightarrow> ('k \<Rightarrow> nat list option) \<Rightarrow> 'c PolyStripsType \<Rightarrow> bool" where
  "collapsed_polys key collapsed [] = False"
| "collapsed_polys key collapsed (e # es) =
     (case collapsed_pts key collapsed (map snd (pts (snd e))) of
        (True, collapsed') \<Rightarrow> True
      | (False, collapsed') \<Rightarrow> collapsed_polys key collapsed' es)"

text \<open>
  What the claim asks of one polygon: two StripPoints of its map \<^verbatim>\<open>pts\<close> (two
  entries, so two different contact points) are boundary captures with the same
  snapped coordinate.
\<close>

fun equal_capture_in :: "('c \<Rightarrow> 'k) \<Rightarrow> 'c StripPt list \<Rightarrow> bool" where
  "equal_capture_in key [] = False"
| "equal_capture_in key (sp # sps) =
     ((Boundary (capt sp) \<and>
       list_ex (\<lambda>sq. Boundary (capt sq) \<and> spInd sq \<noteq> spInd sp \<and> key (cutPt sq) = key (cutPt sp)) sps)
      \<or> equal_capture_in key sps)"

definition equal_captures :: "('c \<Rightarrow> 'k) \<Rightarrow> 'c PolyStripsType \<Rightarrow> bool" where
  "equal_captures key polyStrips =
     list_ex (\<lambda>e. equal_capture_in key (map snd (pts (snd e)))) polyStrips"

subsection \<open>Strip assembly\<close>

text \<open>
  \<^verbatim>\<open>pts.at(i)\<close> throws \<^verbatim>\<open>std::out_of_range\<close> at an absent key; nothing in the
  filter catches it.  \<open>Thrown\<close> is that outcome.
\<close>

datatype 'a found = Thrown | NotFound | Found 'a

definition capt_at :: "(nat \<times> 'c StripPt) list \<Rightarrow> nat \<Rightarrow> Capt option" where
  "capt_at ps i = map_option capt (map_of ps i)"

text \<open>
  The scan of \<^verbatim>\<open>FindRight\<close> and \<^verbatim>\<open>FindLeft\<close> over the deque \<^verbatim>\<open>_lines\<close>: the
  first line with an end at \<open>x\<close> gives its other end and is erased.
\<close>

fun find_line :: "nat \<Rightarrow> (nat \<times> nat) list \<Rightarrow> (nat \<times> (nat \<times> nat) list) option" where
  "find_line x [] = None"
| "find_line x (l # ls) =
     (if fst l = x then Some (snd l, ls)
      else if snd l = x then Some (fst l, ls)
      else (case find_line x ls of
              None \<Rightarrow> None
            | Some (y, ls') \<Rightarrow> Some (y, l # ls')))"

definition FindRight ::
  "(nat \<times> 'c StripPt) list \<Rightarrow> (nat \<times> nat) list \<Rightarrow> StripType \<Rightarrow> nat
     \<Rightarrow> (StripType \<times> (nat \<times> nat) list) found" where
  "FindRight ps ls s stripId =
     (case capt_at ps (ind (last s)) of
        None \<Rightarrow> Thrown
      | Some c \<Rightarrow>
          if c = Capt_Not
          then (case find_line (ind (last s)) ls of
                  None \<Rightarrow> NotFound
                | Some (y, ls') \<Rightarrow> Found (s @ [\<lparr>ind = y, strip = stripId\<rparr>], ls'))
          else NotFound)"

definition FindLeft ::
  "(nat \<times> 'c StripPt) list \<Rightarrow> (nat \<times> nat) list \<Rightarrow> StripType \<Rightarrow> nat
     \<Rightarrow> (StripType \<times> (nat \<times> nat) list) found" where
  "FindLeft ps ls s stripId =
     (case capt_at ps (ind (hd s)) of
        None \<Rightarrow> Thrown
      | Some c \<Rightarrow>
          if c = Capt_Not
          then (case find_line (ind (hd s)) ls of
                  None \<Rightarrow> NotFound
                | Some (y, ls') \<Rightarrow> Found (\<lparr>ind = y, strip = stripId\<rparr> # s, ls'))
          else NotFound)"

lemma find_line_length:
  "find_line x ls = Some (y, ls') \<Longrightarrow> length ls' < length ls"
  by (induction ls arbitrary: y ls') (auto split: if_splits option.splits)

lemma FindRight_length:
  "FindRight ps ls s i = Found (s', ls') \<Longrightarrow> length ls' < length ls"
  by (auto simp: FindRight_def split: option.splits if_splits dest: find_line_length)

lemma FindLeft_length:
  "FindLeft ps ls s i = Found (s', ls') \<Longrightarrow> length ls' < length ls"
  by (auto simp: FindLeft_def split: option.splits if_splits dest: find_line_length)

text \<open>\<^verbatim>\<open>while (FindRight(strip, stripId)) {}\<close>; \<open>None\<close> when \<^verbatim>\<open>at\<close> throws.\<close>

function while_FindRight ::
  "(nat \<times> 'c StripPt) list \<Rightarrow> (nat \<times> nat) list \<Rightarrow> StripType \<Rightarrow> nat
     \<Rightarrow> (StripType \<times> (nat \<times> nat) list) option" where
  "while_FindRight ps ls s stripId =
     (case FindRight ps ls s stripId of
        Thrown \<Rightarrow> None
      | NotFound \<Rightarrow> Some (s, ls)
      | Found (s', ls') \<Rightarrow> while_FindRight ps ls' s' stripId)"
  by pat_completeness auto
termination
  by (relation "measure (\<lambda>(ps, ls, s, stripId). length ls)") (auto dest: FindRight_length)

declare while_FindRight.simps [simp del]

function while_FindLeft ::
  "(nat \<times> 'c StripPt) list \<Rightarrow> (nat \<times> nat) list \<Rightarrow> StripType \<Rightarrow> nat
     \<Rightarrow> (StripType \<times> (nat \<times> nat) list) option" where
  "while_FindLeft ps ls s stripId =
     (case FindLeft ps ls s stripId of
        Thrown \<Rightarrow> None
      | NotFound \<Rightarrow> Some (s, ls)
      | Found (s', ls') \<Rightarrow> while_FindLeft ps ls' s' stripId)"
  by pat_completeness auto
termination
  by (relation "measure (\<lambda>(ps, ls, s, stripId). length ls)") (auto dest: FindLeft_length)

declare while_FindLeft.simps [simp del]

lemma while_FindRight_length:
  "while_FindRight ps ls s i = Some (s', ls') \<Longrightarrow> length ls' \<le> length ls"
proof (induction ps ls s i rule: while_FindRight.induct)
  case (1 ps ls s stripId)
  show ?case
  proof (cases "FindRight ps ls s stripId")
    case Thrown
    with "1.prems" show ?thesis by (simp add: while_FindRight.simps[of ps ls])
  next
    case NotFound
    with "1.prems" show ?thesis by (simp add: while_FindRight.simps[of ps ls])
  next
    case (Found x)
    obtain s1 ls1 where x: "x = (s1, ls1)" by (cases x)
    from "1.prems" Found x have "while_FindRight ps ls1 s1 stripId = Some (s', ls')"
      by (simp add: while_FindRight.simps[of ps ls])
    with "1.IH"[OF Found x[symmetric]] Found x FindRight_length[of ps ls s stripId s1 ls1]
    show ?thesis by simp
  qed
qed

lemma while_FindLeft_length:
  "while_FindLeft ps ls s i = Some (s', ls') \<Longrightarrow> length ls' \<le> length ls"
proof (induction ps ls s i rule: while_FindLeft.induct)
  case (1 ps ls s stripId)
  show ?case
  proof (cases "FindLeft ps ls s stripId")
    case Thrown
    with "1.prems" show ?thesis by (simp add: while_FindLeft.simps[of ps ls])
  next
    case NotFound
    with "1.prems" show ?thesis by (simp add: while_FindLeft.simps[of ps ls])
  next
    case (Found x)
    obtain s1 ls1 where x: "x = (s1, ls1)" by (cases x)
    from "1.prems" Found x have "while_FindLeft ps ls1 s1 stripId = Some (s', ls')"
      by (simp add: while_FindLeft.simps[of ps ls])
    with "1.IH"[OF Found x[symmetric]] Found x FindLeft_length[of ps ls s stripId s1 ls1]
    show ?thesis by simp
  qed
qed

text \<open>
  \<^verbatim>\<open>
  while (!_lines.empty()) {
      auto &last = _lines.back();
      StripType strip {{last.f, stripId}, {last.g, stripId}};
      _lines.pop_back();
      while (FindRight(strip, stripId)) {}
      while (FindLeft(strip, stripId)) {}
      strips.push_back(std::move(strip));
      stripId++;
  }
  \<close>
\<close>

function assemble ::
  "(nat \<times> 'c StripPt) list \<Rightarrow> (nat \<times> nat) list \<Rightarrow> nat \<Rightarrow> StripType list option" where
  "assemble ps ls stripId =
     (if ls = [] then Some []
      else (case while_FindRight ps (butlast ls)
                   [\<lparr>ind = fst (last ls), strip = stripId\<rparr>, \<lparr>ind = snd (last ls), strip = stripId\<rparr>]
                   stripId of
              None \<Rightarrow> None
            | Some (s1, ls1) \<Rightarrow>
                (case while_FindLeft ps ls1 s1 stripId of
                   None \<Rightarrow> None
                 | Some (s2, ls2) \<Rightarrow>
                     (case assemble ps ls2 (stripId + 1) of
                        None \<Rightarrow> None
                      | Some ss \<Rightarrow> Some (s2 # ss)))))"
  by pat_completeness auto
termination
proof (relation "measure (\<lambda>(ps, ls, stripId). length ls)", goal_cases)
  case 1
  show ?case by simp
next
  case (2 ps ls stripId x2 s1 ls1 x2a s2 ls2)
  then have "length ls1 \<le> length (butlast ls)" "length ls2 \<le> length ls1"
    by (auto dest: while_FindRight_length while_FindLeft_length)
  with 2 show ?case by (cases ls rule: rev_cases) auto
qed

declare assemble.simps [simp del]

text \<open>
  \<^verbatim>\<open>CompleteStrips\<close>: a strip with two different ends of which one is free is
  doubled.  Both ends are keys of \<^verbatim>\<open>pts\<close> here, since assembly read them with
  \<^verbatim>\<open>at\<close>; at an absent key the model leaves the strip as it is.
\<close>

definition CompleteStrip :: "(nat \<times> 'c StripPt) list \<Rightarrow> StripType \<Rightarrow> StripType" where
  "CompleteStrip ps s =
     (case (map_of ps (ind (hd s)), map_of ps (ind (last s))) of
        (Some start, Some end') \<Rightarrow>
          if spInd start \<noteq> spInd end'
          then (if capt start = Capt_Not then rev (tl s) @ s
                else if capt end' = Capt_Not then s @ tl (rev s)
                else s)
          else s
      | _ \<Rightarrow> s)"

definition CompleteStrips :: "'c PStrips \<Rightarrow> 'c PStrips" where
  "CompleteStrips pStrips = pStrips\<lparr>strips := map (CompleteStrip (pts pStrips)) (strips pStrips)\<rparr>"

text \<open>
  The assembly loop over \<^verbatim>\<open>polyLines\<close>; \<^verbatim>\<open>polyStrips.at(itr->first)\<close> throws at
  an absent polygon.
\<close>

fun update_entry :: "nat \<Rightarrow> 'v \<Rightarrow> (nat \<times> 'v) list \<Rightarrow> (nat \<times> 'v) list" where
  "update_entry k v [] = []"
| "update_entry k v (e # es) = (if fst e = k then (k, v) # es else e # update_entry k v es)"

fun assemble_polys ::
  "Cell list \<Rightarrow> (nat \<times> nat list) list \<Rightarrow> 'c PolyStripsType \<Rightarrow> 'c PolyStripsType option" where
  "assemble_polys contLines [] polyStrips = Some polyStrips"
| "assemble_polys contLines (pl # pls) polyStrips =
     (case map_of polyStrips (fst pl) of
        None \<Rightarrow> None
      | Some pStrips \<Rightarrow>
          (case assemble (pts pStrips) (assembly_lines contLines (snd pl)) 0 of
             None \<Rightarrow> None
           | Some ss \<Rightarrow>
               assemble_polys contLines pls
                 (update_entry (fst pl) (CompleteStrips (pStrips\<lparr>strips := strips pStrips @ ss\<rparr>))
                    polyStrips)))"

text \<open>
  \<^verbatim>\<open>GetPolyStrips\<close>.  Two parts of it are geometry in floating point and are
  parameters: \<open>locate\<close> stands for the construction of the bundles with
  \<^verbatim>\<open>GetStripPoints\<close> and the lookup of the points not caught, and \<open>crosses\<close> for
  the search of one polygon's strips for a crossing.  The result is \<open>None\<close> when an
  exception leaves the function, else the returned flag and the bundles.
\<close>

definition GetPolyStrips ::
  "('c \<Rightarrow> 'k) \<Rightarrow> ((nat \<times> nat list) list \<Rightarrow> 'c PolyStripsType) \<Rightarrow> ('c PStrips \<Rightarrow> bool)
     \<Rightarrow> Cell list \<Rightarrow> nat list \<Rightarrow> (bool \<times> 'c PolyStripsType) option" where
  "GetPolyStrips key locate crosses contLines conts =
     (let pLines = dedupLines contLines conts;
          polyStrips = locate pLines
      in if collapsed_polys key Map.empty polyStrips then Some (True, polyStrips)
         else (case assemble_polys contLines pLines polyStrips of
                 None \<Rightarrow> None
               | Some polyStrips' \<Rightarrow> Some (list_ex (\<lambda>e. crosses (snd e)) polyStrips', polyStrips')))"

section \<open>CleanStrips\<close>

text \<open>
  A strip is a hole when both ends are free and it has no area:
  \<^verbatim>\<open>
  pts.at(strip.front().ind).capt == Capt::Not
      && pts.at(strip.back().ind).capt == Capt::Not
      && !HasArea(strip)
  \<close>
  The second \<^verbatim>\<open>at\<close> is reached only when the first end is free.  A strip holds
  at least the two ends of its first line; \<^verbatim>\<open>front()\<close> of an empty strip is
  undefined, and the model stops there as it does at a throwing \<^verbatim>\<open>at\<close>.
\<close>

definition is_hole :: "(nat \<times> 'c StripPt) list \<Rightarrow> StripType \<Rightarrow> bool option" where
  "is_hole ps s =
     (if s = [] then None
      else (case capt_at ps (ind (hd s)) of
              None \<Rightarrow> None
            | Some cf \<Rightarrow>
                if cf \<noteq> Capt_Not then Some False
                else (case capt_at ps (ind (last s)) of
                        None \<Rightarrow> None
                      | Some cb \<Rightarrow> Some (cb = Capt_Not \<and> \<not> HasArea s))))"

text \<open>
  \<^verbatim>\<open>FindHoles\<close>: \<^verbatim>\<open>remove_if\<close> calls the predicate once on every strip, in
  order; the predicate puts the points of a hole into the set \<^verbatim>\<open>inds\<close>.
\<close>

fun FindHoles_strips ::
  "(nat \<times> 'c StripPt) list \<Rightarrow> StripType list \<Rightarrow> nat list \<Rightarrow> (StripType list \<times> nat list) option" where
  "FindHoles_strips ps [] inds = Some ([], inds)"
| "FindHoles_strips ps (s # ss) inds =
     (case is_hole ps s of
        None \<Rightarrow> None
      | Some True \<Rightarrow> FindHoles_strips ps ss (foldl (\<lambda>acc p. emplace (ind p) acc) inds s)
      | Some False \<Rightarrow>
          (case FindHoles_strips ps ss inds of
             None \<Rightarrow> None
           | Some (kept, inds') \<Rightarrow> Some (s # kept, inds')))"

fun FindHoles :: "'c PolyStripsType \<Rightarrow> nat list \<Rightarrow> ('c PolyStripsType \<times> nat list) option" where
  "FindHoles [] inds = Some ([], inds)"
| "FindHoles (e # es) inds =
     (case FindHoles_strips (pts (snd e)) (strips (snd e)) inds of
        None \<Rightarrow> None
      | Some (kept, inds') \<Rightarrow>
          (case FindHoles es inds' of
             None \<Rightarrow> None
           | Some (es', inds'') \<Rightarrow> Some ((fst e, (snd e)\<lparr>strips := kept\<rparr>) # es', inds'')))"

text \<open>\<^verbatim>\<open>CleanOther\<close>: every strip with a point of \<^verbatim>\<open>inds\<close> is removed.\<close>

definition CleanOther :: "nat list \<Rightarrow> 'c PolyStripsType \<Rightarrow> 'c PolyStripsType" where
  "CleanOther inds polyStrips =
     map (\<lambda>e. (fst e, (snd e)\<lparr>strips :=
            filter (\<lambda>s. \<not> list_ex (\<lambda>p. ind p \<in> set inds) s) (strips (snd e))\<rparr>)) polyStrips"

text \<open>
  \<^verbatim>\<open>
  for (vtkIdType ind : inds) {
      contLines->GetPointCells(ind, lines);
      numLines = lines->GetNumberOfIds();
      for (i = 0; i < numLines; i++) {
          contLines->DeleteCell(lines->GetId(i));
      }
  }
  \<close>
\<close>

definition DeleteLines :: "Cell list \<Rightarrow> nat list \<Rightarrow> Cell list" where
  "DeleteLines contLines inds =
     foldl (\<lambda>cl i. foldl DeleteCell cl (GetPointCells cl i)) contLines inds"

definition all_deleted :: "Cell list \<Rightarrow> bool" where
  "all_deleted contLines =
     (let numLines = length contLines;
          j = length (filter (\<lambda>i. GetCellType contLines i = VTK_EMPTY_CELL) [0..<numLines])
      in j = numLines)"

text \<open>
  \<^verbatim>\<open>CleanStrips\<close> on the filter's state (the bundles of both meshes and the contact
  lines): \<open>None\<close> when an exception leaves it, else the returned flag and the new
  state.
\<close>

definition CleanStrips ::
  "'c PolyStripsType \<Rightarrow> 'c PolyStripsType \<Rightarrow> Cell list
     \<Rightarrow> (bool \<times> 'c PolyStripsType \<times> 'c PolyStripsType \<times> Cell list) option" where
  "CleanStrips polyStripsA polyStripsB contLines =
     (case FindHoles polyStripsA [] of
        None \<Rightarrow> None
      | Some (holesA, indsA) \<Rightarrow>
          (case FindHoles polyStripsB indsA of
             None \<Rightarrow> None
           | Some (holesB, inds) \<Rightarrow>
               (let contLines' = DeleteLines contLines inds
                in Some (all_deleted contLines',
                         CleanOther inds holesA, CleanOther inds holesB, contLines'))))"

text \<open>
  The words of the spec for the state after cleaning: the holes of a bundle, the points
  dropped with them, the strips that stay, and the lines deleted.
\<close>

definition holes_of :: "'c PolyStripsType \<Rightarrow> StripType list" where
  "holes_of polyStrips =
     concat (map (\<lambda>e. filter (\<lambda>s. is_hole (pts (snd e)) s = Some True) (strips (snd e))) polyStrips)"

definition dropped :: "'c PolyStripsType \<Rightarrow> 'c PolyStripsType \<Rightarrow> nat set" where
  "dropped polyStripsA polyStripsB =
     set (map ind (concat (holes_of polyStripsA @ holes_of polyStripsB)))"

definition cleaned :: "nat set \<Rightarrow> 'c PolyStripsType \<Rightarrow> 'c PolyStripsType" where
  "cleaned D polyStrips =
     map (\<lambda>e. (fst e, (snd e)\<lparr>strips :=
            filter (\<lambda>s. is_hole (pts (snd e)) s \<noteq> Some True \<and> set (map ind s) \<inter> D = {})
              (strips (snd e))\<rparr>)) polyStrips"

definition lines_without :: "nat set \<Rightarrow> Cell list \<Rightarrow> Cell list" where
  "lines_without D contLines =
     map (\<lambda>c. if set (cellPts c) \<inter> D = {} then c else c\<lparr>cellType := VTK_EMPTY_CELL\<rparr>) contLines"

text \<open>Every end of every strip is a key of \<^verbatim>\<open>pts\<close>, as strip assembly leaves it.\<close>

definition ends_located :: "'c PolyStripsType \<Rightarrow> bool" where
  "ends_located polyStrips =
     list_all (\<lambda>e. list_all (\<lambda>s. s \<noteq> [] \<and> capt_at (pts (snd e)) (ind (hd s)) \<noteq> None
                                  \<and> capt_at (pts (snd e)) (ind (last s)) \<noteq> None)
                      (strips (snd e))) polyStrips"

text \<open>
  The check of \<^verbatim>\<open>RequestData\<close> on the contact lines as the contact stage gives them
  (\<^verbatim>\<open>cells->GetNumberOfIds() == 1\<close> is refused), and the degree of a point among
  the lines that are not deleted.
\<close>

definition line_end_alone :: "Cell list \<Rightarrow> nat \<Rightarrow> bool" where
  "line_end_alone contLines numPts =
     list_ex (\<lambda>i. length (GetPointCells contLines i) = 1) [0..<numPts]"


section \<open>CutCells\<close>

text \<open>
  \<^verbatim>\<open>pts[i]\<close> on the map inserts a default StripPt at an absent key.  Its capture is
  \<^verbatim>\<open>Capt::Not\<close>: \<^verbatim>\<open>GetStripPoints\<close> tests \<^verbatim>\<open>sp.capt == Capt::Not\<close> on a
  StripPt that no edge has caught.
\<close>

definition capt_of :: "(nat \<times> 'c StripPt) list \<Rightarrow> nat \<Rightarrow> Capt" where
  "capt_of ps i = (case map_of ps i of None \<Rightarrow> Capt_Not | Some sp \<Rightarrow> capt sp)"

text \<open>
  The shortcut:
  \<^verbatim>\<open>
  if (std::all_of(pts.begin(), pts.end(), [](const auto &p) {
          return p.second.capt & Capt::A || p.second.capt & Capt::B; })) {
      ... _poly: the coordinates of the ring
      std::set<Point3d> ptsA(_poly.begin(), _poly.end()), ptsB;
      for (const auto& [ind, sp] : pts) { ptsB.emplace(sp.cutPt[0], sp.cutPt[1], sp.cutPt[2]); }
      if (ptsA == ptsB) {
          for (auto &p : _poly) { cell->InsertNextId(pdPts->InsertNextPoint(p.x, p.y, p.z)); }
          pd->InsertNextCell(VTK_POLYGON, cell);
          origCellIds->InsertNextValue(origId);
          pd->DeleteCell(polyInd);
          continue;
      }
  }
  \<close>
\<close>

definition coincident :: "('c \<Rightarrow> 'k) \<Rightarrow> 'c PolyData \<Rightarrow> 'c PStrips \<Rightarrow> bool" where
  "coincident key pd pStrips =
     (list_all (\<lambda>e. capt (snd e) = Capt_A \<or> capt (snd e) = Capt_B) (pts pStrips) \<and>
      key ` set (map (GetPoint pd) (poly pStrips)) = key ` set (map (\<lambda>e. cutPt (snd e)) (pts pStrips)))"

definition InsertNextPoint :: "'c PolyData \<Rightarrow> 'c \<Rightarrow> nat \<times> 'c PolyData" where
  "InsertNextPoint pd c = (length (points pd), pd\<lparr>points := points pd @ [c]\<rparr>)"

definition InsertNextCell :: "'c PolyData \<Rightarrow> nat list \<Rightarrow> 'c PolyData" where
  "InsertNextCell pd ids = pd\<lparr>cells := cells pd @ [\<lparr>cellType = VTK_POLYGON, cellPts = ids\<rparr>]\<rparr>"

definition reemit :: "'c PolyData \<Rightarrow> nat \<Rightarrow> 'c PStrips \<Rightarrow> 'c PolyData" where
  "reemit pd polyInd pStrips =
     (let origId = origCellIds pd ! polyInd;
          ring = map (GetPoint pd) (poly pStrips);
          (cell, pd1) = foldl (\<lambda>(cell, pd') c. (case InsertNextPoint pd' c of
                                   (i, pd'') \<Rightarrow> (cell @ [i], pd''))) ([], pd) ring;
          pd2 = InsertNextCell pd1 cell;
          pd3 = pd2\<lparr>origCellIds := origCellIds pd2 @ [origId]\<rparr>
      in pd3\<lparr>cells := DeleteCell (cells pd3) polyInd\<rparr>)"

text \<open>
  \<^verbatim>\<open>
  if (std::find_if(strips.begin(), strips.end(), [&](const StripType &s) {
      return pts[s.front().ind].capt == Capt::Branched && pts[s.back().ind].capt == Capt::Branched;
  }) != strips.end()) {
      return true;
  }
  \<close>
\<close>

definition both_branched :: "(nat \<times> 'c StripPt) list \<Rightarrow> StripType \<Rightarrow> bool" where
  "both_branched ps s =
     (capt_of ps (ind (hd s)) = Capt_Branched \<and> capt_of ps (ind (last s)) = Capt_Branched)"

text \<open>
  One round of the loop of \<^verbatim>\<open>CutCells\<close>.  What follows the two tests (the holes
  set aside, the strips woven into the polygon, the new cells inserted, the hole
  merger) is geometry in floating point and is the parameter \<open>weave\<close>: it gives the
  new mesh, or \<open>None\<close> where the merger throws and \<^verbatim>\<open>CutCells\<close> returns true.
  \<open>None\<close> is the return of true.
\<close>

definition CutCell ::
  "('c \<Rightarrow> 'k) \<Rightarrow> ('c PolyData \<Rightarrow> nat \<Rightarrow> 'c PStrips \<Rightarrow> 'c PolyData option)
     \<Rightarrow> 'c PolyData \<Rightarrow> nat \<times> 'c PStrips \<Rightarrow> 'c PolyData option" where
  "CutCell key weave pd e =
     (if coincident key pd (snd e) then Some (reemit pd (fst e) (snd e))
      else if list_ex (both_branched (pts (snd e))) (strips (snd e)) then None
      else weave pd (fst e) (snd e))"

definition RemoveDeletedCells :: "'c PolyData \<Rightarrow> 'c PolyData" where
  "RemoveDeletedCells pd =
     pd\<lparr>cells := filter (\<lambda>c. cellType c \<noteq> VTK_EMPTY_CELL) (cells pd),
        origCellIds := map snd (filter (\<lambda>co. cellType (fst co) \<noteq> VTK_EMPTY_CELL)
                                   (zip (cells pd) (origCellIds pd)))\<rparr>"

fun CutCells ::
  "('c \<Rightarrow> 'k) \<Rightarrow> ('c PolyData \<Rightarrow> nat \<Rightarrow> 'c PStrips \<Rightarrow> 'c PolyData option)
     \<Rightarrow> 'c PolyData \<Rightarrow> 'c PolyStripsType \<Rightarrow> 'c PolyData option" where
  "CutCells key weave pd [] = Some (RemoveDeletedCells pd)"
| "CutCells key weave pd (e # es) =
     (case CutCell key weave pd e of
        None \<Rightarrow> None
      | Some pd' \<Rightarrow> CutCells key weave pd' es)"

section \<open>RequestData\<close>

text \<open>
  The stages of \<^verbatim>\<open>RequestData\<close> from the contact lines up to \<^verbatim>\<open>CutCells\<close>.  An
  error is the message given to \<^verbatim>\<open>vtkErrorMacro\<close> before the return; \<open>Escaped\<close> is
  an exception that no stage catches.
\<close>

datatype 'a result = Failed string | Escaped | Passed 'a

definition RequestData ::
  "('c \<Rightarrow> 'k) \<Rightarrow> ((nat \<times> nat list) list \<Rightarrow> 'c PolyStripsType)
     \<Rightarrow> ((nat \<times> nat list) list \<Rightarrow> 'c PolyStripsType) \<Rightarrow> ('c PStrips \<Rightarrow> bool)
     \<Rightarrow> ('c PolyData \<Rightarrow> nat \<Rightarrow> 'c PStrips \<Rightarrow> 'c PolyData option)
     \<Rightarrow> 'c PolyData \<Rightarrow> 'c PolyData \<Rightarrow> Cell list \<Rightarrow> nat \<Rightarrow> nat list \<Rightarrow> nat list
     \<Rightarrow> ('c PolyData \<times> 'c PolyData \<times> Cell list) result" where
  "RequestData key locateA locateB crosses weave modPdA modPdB contLines numPts contsA contsB =
     (if length contLines = 0 then Failed ''There is no contact.''
      else if line_end_alone contLines numPts
      then Failed ''At least one line-end has only one neighbor.''
      else (case GetPolyStrips key locateA crosses contLines contsA of
              None \<Rightarrow> Escaped
            | Some (True, polyStripsA) \<Rightarrow> Failed ''Strips are invalid.''
            | Some (False, polyStripsA) \<Rightarrow>
               (case GetPolyStrips key locateB crosses contLines contsB of
                  None \<Rightarrow> Escaped
                | Some (True, polyStripsB) \<Rightarrow> Failed ''Strips are invalid.''
                | Some (False, polyStripsB) \<Rightarrow>
                   (case CleanStrips polyStripsA polyStripsB contLines of
                      None \<Rightarrow> Escaped
                    | Some (True, st) \<Rightarrow> Failed ''There is no contact.''
                    | Some (False, polyStripsA', polyStripsB', contLines') \<Rightarrow>
                       (case CutCells key weave modPdA polyStripsA' of
                          None \<Rightarrow> Failed ''CutCells failed.''
                        | Some pdA \<Rightarrow>
                           (case CutCells key weave modPdB polyStripsB' of
                              None \<Rightarrow> Failed ''CutCells failed.''
                            | Some pdB \<Rightarrow> Passed (pdA, pdB, contLines')))))))"

section \<open>MergePoints\<close>













text \<open>
  \<^verbatim>\<open>
  for (itr6 = group.begin()+1; itr6 != group.end(); ++itr6) {
      pd->ReplaceCellPoint(itr6->get().f, itr6->get().g, group.front().get().g);
  }
  \<close>
  \<^verbatim>\<open>ReplaceCellPoint\<close> of VTK writes the new id over the first occurrence of the
  old id in the cell.
\<close>

fun replace_first :: "nat \<Rightarrow> nat \<Rightarrow> nat list \<Rightarrow> nat list" where
  "replace_first old new [] = []"
| "replace_first old new (x # xs) = (if x = old then new # xs else x # replace_first old new xs)"

definition ReplaceCellPoint :: "Cell list \<Rightarrow> nat \<Rightarrow> nat \<Rightarrow> nat \<Rightarrow> Cell list" where
  "ReplaceCellPoint cs cellId oldPt newPt =
     (if cellId < length cs
      then cs[cellId := (cs ! cellId)\<lparr>cellPts := replace_first oldPt newPt (cellPts (cs ! cellId))\<rparr>]
      else cs)"





section \<open>The dihedral classifier\<close>

text \<open>
  Doubles are real numbers here.  \<^verbatim>\<open>GetAngle\<close> is defined in Utilities.cxx, which is
  not among the sources, and is a parameter.  The enum \<^verbatim>\<open>Loc\<close> and the operator
  modes are declared in the header; the model takes their members from their uses
  and from the spec.
\<close>

datatype Congr = Congr_Equal | Congr_Opposite | Congr_Not

datatype Loc = Loc_None | Loc_Inside | Loc_Outside

datatype OperMode = OPER_NONE | OPER_UNION | OPER_INTERSECTION | OPER_DIFFERENCE | OPER_DIFFERENCE2

type_synonym vec = "real \<times> real \<times> real"

record PolyAtEdge =
  polyId :: nat
  ptIdA :: nat
  ptIdB :: nat
  n :: vec
  e :: vec
  r :: vec
  loc :: Loc

record PolyPair =
  pA :: PolyAtEdge
  pB :: PolyAtEdge

fun Dot :: "vec \<Rightarrow> vec \<Rightarrow> real" where
  "Dot (a0, a1, a2) (b0, b1, b2) = a0 * b0 + a1 * b1 + a2 * b2"

definition eps :: real where
  "eps = 99999999 / 100000000"

definition IsCongruent :: "PolyAtEdge \<Rightarrow> PolyAtEdge \<Rightarrow> Congr" where
  "IsCongruent this p =
     (let cong = Dot (n this) (n p) in
      if cong > eps \<or> cong < - eps
      then (let ang = Dot (r this) (r p) in
            if ang > eps
            then (if cong > eps then Congr_Equal else Congr_Opposite)
            else Congr_Not)
      else Congr_Not)"

text \<open>\<^verbatim>\<open>GetLoc\<close> writes \<^verbatim>\<open>loc\<close> of its own two polygons and of \<^verbatim>\<open>pT\<close>.\<close>

definition GetLoc ::
  "(vec \<Rightarrow> vec \<Rightarrow> vec \<Rightarrow> real) \<Rightarrow> PolyPair \<Rightarrow> PolyAtEdge \<Rightarrow> OperMode \<Rightarrow> PolyPair \<times> PolyAtEdge" where
  "GetLoc GetAngle this pT mode =
     (let cA = IsCongruent (pA this) pT;
          cB = IsCongruent (pB this) pT
      in if cA = Congr_Equal \<or> cA = Congr_Opposite
         then (if cA = Congr_Opposite
               then (if mode = OPER_INTERSECTION
                     then (this\<lparr>pA := (pA this)\<lparr>loc := Loc_Outside\<rparr>\<rparr>, pT\<lparr>loc := Loc_Outside\<rparr>)
                     else (this\<lparr>pA := (pA this)\<lparr>loc := Loc_Inside\<rparr>\<rparr>, pT\<lparr>loc := Loc_Inside\<rparr>))
               else if mode = OPER_UNION \<or> mode = OPER_INTERSECTION
               then (this\<lparr>pA := (pA this)\<lparr>loc := Loc_Inside\<rparr>\<rparr>, pT\<lparr>loc := Loc_Outside\<rparr>)
               else (this, pT))
         else if cB = Congr_Equal \<or> cB = Congr_Opposite
         then (if cB = Congr_Opposite
               then (if mode = OPER_INTERSECTION
                     then (this\<lparr>pB := (pB this)\<lparr>loc := Loc_Outside\<rparr>\<rparr>, pT\<lparr>loc := Loc_Outside\<rparr>)
                     else (this\<lparr>pB := (pB this)\<lparr>loc := Loc_Inside\<rparr>\<rparr>, pT\<lparr>loc := Loc_Inside\<rparr>))
               else if mode = OPER_UNION \<or> mode = OPER_INTERSECTION
               then (this\<lparr>pB := (pB this)\<lparr>loc := Loc_Inside\<rparr>\<rparr>, pT\<lparr>loc := Loc_Outside\<rparr>)
               else (this, pT))
         else (let alpha = GetAngle (r (pA this)) (r (pB this)) (e (pA this));
                   beta = GetAngle (r (pA this)) (r pT) (e (pA this))
               in if beta > alpha then (this, pT\<lparr>loc := Loc_Inside\<rparr>)
                  else (this, pT\<lparr>loc := Loc_Outside\<rparr>)))"

section \<open>CombineRegions: the selection of regions\<close>

text \<open>
  \<^verbatim>\<open>
  Loc comb[] = {Loc::Outside, Loc::Outside};
  if (OperMode == OPER_INTERSECTION) { comb[0] = Loc::Inside; comb[1] = Loc::Inside; }
  else if (OperMode == OPER_DIFFERENCE) { comb[1] = Loc::Inside; }
  else if (OperMode == OPER_DIFFERENCE2) { comb[0] = Loc::Inside; }
  \<close>
  \<^verbatim>\<open>locsA\<close> and \<^verbatim>\<open>locsB\<close> map a region to the label it got at a contact line; they
  are the lists of their entries.  The regions of a mesh are numbered from 0 to
  \<^verbatim>\<open>GetNumberOfExtractedRegions()\<close>.
\<close>

definition comb :: "OperMode \<Rightarrow> Loc \<times> Loc" where
  "comb mode =
     (if mode = OPER_INTERSECTION then (Loc_Inside, Loc_Inside)
      else if mode = OPER_DIFFERENCE then (Loc_Outside, Loc_Inside)
      else if mode = OPER_DIFFERENCE2 then (Loc_Inside, Loc_Outside)
      else (Loc_Outside, Loc_Outside))"

definition located :: "(nat \<times> Loc) list \<Rightarrow> Loc \<Rightarrow> nat list" where
  "located locs l = map fst (filter (\<lambda>kv. snd kv = l) locs)"

definition not_involved :: "(nat \<times> Loc) list \<Rightarrow> nat \<Rightarrow> nat list" where
  "not_involved locs num = filter (\<lambda>i. i \<notin> fst ` set locs) [0..<num]"

text \<open>The regions given to \<^verbatim>\<open>AddSpecifiedRegion\<close> of the two connectivity filters.\<close>

definition SpecifiedRegions ::
  "OperMode \<Rightarrow> (nat \<times> Loc) list \<Rightarrow> (nat \<times> Loc) list \<Rightarrow> nat \<Rightarrow> nat \<Rightarrow> nat list \<times> nat list" where
  "SpecifiedRegions mode locsA locsB numA numB =
     (located locsA (fst (comb mode))
        @ (if mode = OPER_UNION \<or> mode = OPER_DIFFERENCE then not_involved locsA numA else []),
      located locsB (snd (comb mode))
        @ (if mode = OPER_UNION \<or> mode = OPER_DIFFERENCE2 then not_involved locsB numB else []))"

section \<open>Auxiliary notions and example states\<close>

text \<open>The bundles without their holes, and the lines without those at one point.\<close>

definition no_holes :: "'c PolyStripsType \<Rightarrow> 'c PolyStripsType" where
  "no_holes es = map (\<lambda>e. (fst e, (snd e)\<lparr>strips :=
       filter (\<lambda>s. is_hole (pts (snd e)) s \<noteq> Some True) (strips (snd e))\<rparr>)) es"

definition lines_without_pt :: "nat \<Rightarrow> Cell list \<Rightarrow> Cell list" where
  "lines_without_pt p cl =
     map (\<lambda>c. if p \<in> set (cellPts c) then c\<lparr>cellType := VTK_EMPTY_CELL\<rparr> else c) cl"

text \<open>A strip with both ends among the keys of \<^verbatim>\<open>pts\<close>.\<close>

definition located_strip :: "(nat \<times> 'c StripPt) list \<Rightarrow> StripType \<Rightarrow> bool" where
  "located_strip ps s =
     (s \<noteq> [] \<and> capt_at ps (ind (hd s)) \<noteq> None \<and> capt_at ps (ind (last s)) \<noteq> None)"


text \<open>
  Example states.  Coordinates are triples of integers and their own keys.  The
  meshes are one square, or two squares side by side (below); \<open>idle\<close> stands for a
  weaving that changes nothing.
\<close>

definition square :: "(int \<times> int \<times> int) PolyData" where
  "square = \<lparr>points = [(0, 0, 0), (10, 0, 0), (10, 10, 0), (0, 10, 0)],
             cells = [\<lparr>cellType = VTK_POLYGON, cellPts = [0, 1, 2, 3]\<rparr>],
             origCellIds = [0]\<rparr>"

definition idle ::
  "(int \<times> int \<times> int) PolyData \<Rightarrow> nat \<Rightarrow> (int \<times> int \<times> int) PStrips
     \<Rightarrow> (int \<times> int \<times> int) PolyData option" where
  "idle pd polyInd pStrips = Some pd"

text \<open>
  Two contact lines that join the same two points 0 and 1, both inside polygon 0 of
  either mesh; \<open>two_points c x y\<close> are the bundles in which both points have the
  capture \<open>c\<close> and the snapped coordinates \<open>x\<close> and \<open>y\<close>.
\<close>

definition double_line :: "Cell list" where
  "double_line = [\<lparr>cellType = VTK_LINE, cellPts = [0, 1]\<rparr>, \<lparr>cellType = VTK_LINE, cellPts = [1, 0]\<rparr>]"

definition two_points ::
  "Capt \<Rightarrow> int \<times> int \<times> int \<Rightarrow> int \<times> int \<times> int \<Rightarrow> (nat \<times> nat list) list
     \<Rightarrow> (int \<times> int \<times> int) PolyStripsType" where
  "two_points c x y pLines =
     [(0, \<lparr>poly = [0, 1, 2, 3],
            pts = [(0, \<lparr>spInd = 0, capt = c, cutPt = x\<rparr>), (1, \<lparr>spInd = 1, capt = c, cutPt = y\<rparr>)],
            strips = []\<rparr>)]"

text \<open>
  A closed contact curve of four lines through the points 0, 1, 2, 3.  In mesh A the
  line from 0 to 1 crosses polygon 0, where both its ends are free, and the other three
  lines cross polygon 1, where the points 0 and 1 lie on an edge; in mesh B all four
  lines cross polygon 0.
\<close>

definition four_lines :: "Cell list" where
  "four_lines = [\<lparr>cellType = VTK_LINE, cellPts = [0, 1]\<rparr>, \<lparr>cellType = VTK_LINE, cellPts = [1, 2]\<rparr>,
                 \<lparr>cellType = VTK_LINE, cellPts = [2, 3]\<rparr>, \<lparr>cellType = VTK_LINE, cellPts = [3, 0]\<rparr>]"


definition four_lines_B :: "(nat \<times> nat list) list \<Rightarrow> (int \<times> int \<times> int) PolyStripsType" where
  "four_lines_B pLines =
     [(0, \<lparr>poly = [0, 1, 2, 3],
            pts = [(0, \<lparr>spInd = 0, capt = Capt_Not, cutPt = (4, 5, 0)\<rparr>),
                   (1, \<lparr>spInd = 1, capt = Capt_Not, cutPt = (6, 5, 0)\<rparr>),
                   (2, \<lparr>spInd = 2, capt = Capt_Not, cutPt = (6, 7, 0)\<rparr>),
                   (3, \<lparr>spInd = 3, capt = Capt_Not, cutPt = (4, 7, 0)\<rparr>)],
            strips = []\<rparr>)]"


text \<open>
  The bundles that \<^verbatim>\<open>GetPolyStrips\<close> makes of \<open>double_line\<close> when both points are
  free: the one line left by \<^verbatim>\<open>RemoveDuplicates\<close> is doubled by
  \<^verbatim>\<open>CompleteStrips\<close>.
\<close>

definition doubled_strip :: "(int \<times> int \<times> int) PolyStripsType" where
  "doubled_strip =
     [(0, \<lparr>poly = [0, 1, 2, 3],
            pts = [(0, \<lparr>spInd = 0, capt = Capt_Not, cutPt = (4, 5, 0)\<rparr>),
                   (1, \<lparr>spInd = 1, capt = Capt_Not, cutPt = (6, 5, 0)\<rparr>)],
            strips = [[\<lparr>ind = 1, strip = 0\<rparr>, \<lparr>ind = 0, strip = 0\<rparr>, \<lparr>ind = 1, strip = 0\<rparr>]]\<rparr>)]"

text \<open>
  The bundles that \<^verbatim>\<open>GetPolyStrips\<close> makes of \<open>four_lines\<close>, and the contact lines
  as \<^verbatim>\<open>CleanStrips\<close> leaves them.
\<close>

definition four_lines_stripsA :: "(int \<times> int \<times> int) PolyStripsType" where
  "four_lines_stripsA =
     [(0, \<lparr>poly = [0, 1, 2, 3],
            pts = [(0, \<lparr>spInd = 0, capt = Capt_Not, cutPt = (4, 5, 0)\<rparr>),
                   (1, \<lparr>spInd = 1, capt = Capt_Not, cutPt = (6, 5, 0)\<rparr>)],
            strips = [[\<lparr>ind = 1, strip = 0\<rparr>, \<lparr>ind = 0, strip = 0\<rparr>, \<lparr>ind = 1, strip = 0\<rparr>]]\<rparr>),
      (1, \<lparr>poly = [4, 5, 6, 7],
            pts = [(0, \<lparr>spInd = 0, capt = Capt_Edge, cutPt = (4, 5, 0)\<rparr>),
                   (1, \<lparr>spInd = 1, capt = Capt_Edge, cutPt = (6, 5, 0)\<rparr>),
                   (2, \<lparr>spInd = 2, capt = Capt_Not, cutPt = (6, 7, 0)\<rparr>),
                   (3, \<lparr>spInd = 3, capt = Capt_Not, cutPt = (4, 7, 0)\<rparr>)],
            strips = [[\<lparr>ind = 1, strip = 0\<rparr>, \<lparr>ind = 2, strip = 0\<rparr>,
                       \<lparr>ind = 3, strip = 0\<rparr>, \<lparr>ind = 0, strip = 0\<rparr>]]\<rparr>)]"

definition four_lines_stripsB :: "(int \<times> int \<times> int) PolyStripsType" where
  "four_lines_stripsB =
     [(0, \<lparr>poly = [0, 1, 2, 3],
            pts = [(0, \<lparr>spInd = 0, capt = Capt_Not, cutPt = (4, 5, 0)\<rparr>),
                   (1, \<lparr>spInd = 1, capt = Capt_Not, cutPt = (6, 5, 0)\<rparr>),
                   (2, \<lparr>spInd = 2, capt = Capt_Not, cutPt = (6, 7, 0)\<rparr>),
                   (3, \<lparr>spInd = 3, capt = Capt_Not, cutPt = (4, 7, 0)\<rparr>)],
            strips = [[\<lparr>ind = 3, strip = 0\<rparr>, \<lparr>ind = 0, strip = 0\<rparr>, \<lparr>ind = 1, strip = 0\<rparr>,
                       \<lparr>ind = 2, strip = 0\<rparr>, \<lparr>ind = 3, strip = 0\<rparr>]]\<rparr>)]"


text \<open>Some strip of some polygon has two branched ends.\<close>

definition has_both_branched :: "'c PolyStripsType \<Rightarrow> bool" where
  "has_both_branched polyStrips =
     list_ex (\<lambda>e. list_ex (both_branched (pts (snd e))) (strips (snd e))) polyStrips"

text \<open>
  The bundles that \<^verbatim>\<open>GetPolyStrips\<close> makes of \<open>double_line\<close> when both points are
  captured alike (on a vertex, or as branches): one strip from 0 to 1.
\<close>

definition single_strip ::
  "Capt \<Rightarrow> int \<times> int \<times> int \<Rightarrow> int \<times> int \<times> int \<Rightarrow> (int \<times> int \<times> int) PolyStripsType" where
  "single_strip c x y =
     [(0, \<lparr>poly = [0, 1, 2, 3],
            pts = [(0, \<lparr>spInd = 0, capt = c, cutPt = x\<rparr>), (1, \<lparr>spInd = 1, capt = c, cutPt = y\<rparr>)],
            strips = [[\<lparr>ind = 0, strip = 0\<rparr>, \<lparr>ind = 1, strip = 0\<rparr>]]\<rparr>)]"

text \<open>
  A bundle of the square whose four StripPoints are captured on the four corners, with
  a strip along every side on which a contact line runs.
\<close>

definition on_corners :: "(int \<times> int \<times> int) PStrips" where
  "on_corners =
     \<lparr>poly = [0, 1, 2, 3],
      pts = [(0, \<lparr>spInd = 0, capt = Capt_A, cutPt = (0, 0, 0)\<rparr>),
             (1, \<lparr>spInd = 1, capt = Capt_A, cutPt = (10, 0, 0)\<rparr>),
             (2, \<lparr>spInd = 2, capt = Capt_A, cutPt = (10, 10, 0)\<rparr>),
             (3, \<lparr>spInd = 3, capt = Capt_A, cutPt = (0, 10, 0)\<rparr>)],
      strips = [[\<lparr>ind = 3, strip = 0\<rparr>, \<lparr>ind = 0, strip = 0\<rparr>],
                [\<lparr>ind = 2, strip = 1\<rparr>, \<lparr>ind = 3, strip = 1\<rparr>],
                [\<lparr>ind = 1, strip = 2\<rparr>, \<lparr>ind = 2, strip = 2\<rparr>],
                [\<lparr>ind = 0, strip = 3\<rparr>, \<lparr>ind = 1, strip = 3\<rparr>]]\<rparr>"





text \<open>
  The contact lines that a strip runs through, one pair of indices for every two
  neighbours of the strip, and a line without its direction (\<^verbatim>\<open>RemoveDuplicates\<close>
  and the scan of \<^verbatim>\<open>FindRight\<close> take a line in both directions).
\<close>

definition nrm :: "nat \<times> nat \<Rightarrow> nat \<times> nat" where
  "nrm l = (min (fst l) (snd l), max (fst l) (snd l))"

fun chain :: "StripType \<Rightarrow> (nat \<times> nat) list" where
  "chain (a # b # s) = (ind a, ind b) # chain (b # s)"
| "chain s = []"

text \<open>
  A strip that never comes back to a point two steps later, and the two forms of a strip
  that \<^verbatim>\<open>GetPolyStrips\<close> leaves: as assembled from different lines, or doubled by
  \<^verbatim>\<open>CompleteStrips\<close>.
\<close>

definition no_return :: "StripType \<Rightarrow> bool" where
  "no_return s = list_all (\<lambda>k. ind (s ! k) \<noteq> ind (s ! (k + 2))) [0..<length s - 2]"

definition built :: "StripType \<Rightarrow> bool" where
  "built s = (2 \<le> length s \<and> (no_return s \<or> (odd (length s) \<and> palindrome s)))"

definition all_built :: "'c PolyStripsType \<Rightarrow> bool" where
  "all_built polyStrips = list_all (\<lambda>b. list_all built (strips (snd b))) polyStrips"

text \<open>The two strips of odd length in the examples above.\<close>

definition closed_strip :: StripType where
  "closed_strip = [\<lparr>ind = 3, strip = 0\<rparr>, \<lparr>ind = 0, strip = 0\<rparr>, \<lparr>ind = 1, strip = 0\<rparr>,
                   \<lparr>ind = 2, strip = 0\<rparr>, \<lparr>ind = 3, strip = 0\<rparr>]"

definition doubled_line :: StripType where
  "doubled_line = [\<lparr>ind = 1, strip = 0\<rparr>, \<lparr>ind = 0, strip = 0\<rparr>, \<lparr>ind = 1, strip = 0\<rparr>]"

section \<open>Theorems\<close>

subsection \<open>HasArea\<close>

lemma foldl_last_assign:
  "foldl (\<lambda>area i. f i) a xs = (if xs = [] then a else f (last xs))"
  by (induction xs arbitrary: a) auto

text \<open>
  What the loop computes: on an odd strip of three or more points only the two
  neighbours of the middle point are compared.
\<close>

lemma HasArea_innermost:
  "HasArea s = (if odd (length s) \<and> 3 \<le> length s
     then ind (s ! ((length s - 3) div 2)) \<noteq> ind (s ! ((length s + 1) div 2)) else True)"
proof (cases "odd (length s) \<and> 3 \<le> length s")
  case True
  then have "length s = 2 * ((length s - 3) div 2) + 3"
    by presburger
  then obtain k where k: "length s = 2 * k + 3" ..
  have "(length s - 1) div 2 = Suc k" using k by simp
  then show ?thesis using True k
    by (simp add: HasArea_def Let_def foldl_last_assign odd_iff_mod_2_eq_one)
next
  case False
  then have "odd (length s) \<Longrightarrow> length s = 1"
    by (auto elim!: oddE)
  with False show ?thesis
    by (auto simp: HasArea_def Let_def foldl_last_assign odd_iff_mod_2_eq_one)
qed

lemma palindrome_no_area:
  assumes "odd (length s)" and "3 \<le> length s" and "palindrome s"
  shows "\<not> HasArea s"
proof -
  from assms(1,2) have "length s = 2 * ((length s - 3) div 2) + 3"
    by presburger
  then obtain k where k: "length s = 2 * k + 3" ..
  have "map ind s ! k = rev (map ind s) ! k"
    using assms(3) by (simp add: palindrome_def)
  also have "\<dots> = map ind s ! (k + 2)"
    using k by (simp add: rev_nth)
  finally have "ind (s ! k) = ind (s ! (k + 2))"
    using k by simp
  moreover have "(length s - 3) div 2 = k" "(length s + 1) div 2 = k + 2"
    using k by simp_all
  ultimately show ?thesis
    using assms(1,2) by (simp add: HasArea_innermost)
qed

text \<open>
  The mirrored pairs further out are not taken into account: the strip with the indices
  1, 2, 3, 2, 9 has odd length and is no palindrome, and \<^verbatim>\<open>HasArea\<close> is false on
  it.  Strip assembly builds no such strip (see below).
\<close>

lemma HasArea_last_comparison_only:
  "odd (length [\<lparr>ind = 1, strip = 0\<rparr>, \<lparr>ind = 2, strip = 0\<rparr>, \<lparr>ind = 3, strip = 0\<rparr>,
                \<lparr>ind = 2, strip = 0\<rparr>, \<lparr>ind = 9, strip = 0\<rparr>])
   \<and> \<not> palindrome [\<lparr>ind = 1, strip = 0\<rparr>, \<lparr>ind = 2, strip = 0\<rparr>, \<lparr>ind = 3, strip = 0\<rparr>,
                    \<lparr>ind = 2, strip = 0\<rparr>, \<lparr>ind = 9, strip = 0\<rparr>]
   \<and> HasArea [\<lparr>ind = 1, strip = 0\<rparr>, \<lparr>ind = 2, strip = 0\<rparr>, \<lparr>ind = 3, strip = 0\<rparr>,
              \<lparr>ind = 2, strip = 0\<rparr>, \<lparr>ind = 9, strip = 0\<rparr>] = False"
  by (simp add: HasArea_def palindrome_def upt_rec)

subsection \<open>RemoveDuplicates\<close>

lemma same_ends_trans: "same_ends p q \<Longrightarrow> same_ends q r' \<Longrightarrow> same_ends p r'"
  by (auto simp: same_ends_def)

lemma same_ends_refl: "same_ends p p"
  by (simp add: same_ends_def)

lemma RemoveDuplicates_loop_first:
  assumes "\<forall>s\<in>set seen. \<exists>k\<in>set kept. same_ends (snd k) (line_ends cl s)"
    and "\<forall>k\<in>set kept. fst k \<in> set seen \<and> snd k = line_ends cl (fst k)"
  shows "map fst (RemoveDuplicates_loop cl ids kept) = map fst kept @ first_of_ends cl seen ids"
  using assms
proof (induction ids arbitrary: kept seen)
  case Nil
  then show ?case by simp
next
  case (Cons i ids)
  let ?ab = "line_ends cl i"
  have iff: "list_ex (\<lambda>l. same_ends (snd l) ?ab) kept
        = list_ex (\<lambda>j. same_ends (line_ends cl j) ?ab) seen"
  proof
    assume "list_ex (\<lambda>l. same_ends (snd l) ?ab) kept"
    then obtain k where "k \<in> set kept" "same_ends (snd k) ?ab"
      by (auto simp: list_ex_iff)
    with Cons.prems(2) show "list_ex (\<lambda>j. same_ends (line_ends cl j) ?ab) seen"
      by (auto simp: list_ex_iff)
  next
    assume "list_ex (\<lambda>j. same_ends (line_ends cl j) ?ab) seen"
    then obtain s where s: "s \<in> set seen" "same_ends (line_ends cl s) ?ab"
      by (auto simp: list_ex_iff)
    with Cons.prems(1) obtain k where "k \<in> set kept" "same_ends (snd k) (line_ends cl s)"
      by blast
    with s show "list_ex (\<lambda>l. same_ends (snd l) ?ab) kept"
      by (auto simp: list_ex_iff intro: same_ends_trans)
  qed
  show ?case
  proof (cases "list_ex (\<lambda>l. same_ends (snd l) ?ab) kept")
    case True
    then obtain k where k: "k \<in> set kept" "same_ends (snd k) ?ab"
      by (auto simp: list_ex_iff)
    have 1: "\<forall>s\<in>set (seen @ [i]). \<exists>k\<in>set kept. same_ends (snd k) (line_ends cl s)"
      using Cons.prems(1) k by auto
    have 2: "\<forall>k\<in>set kept. fst k \<in> set (seen @ [i]) \<and> snd k = line_ends cl (fst k)"
      using Cons.prems(2) by auto
    from Cons.IH[OF 1 2] True iff show ?thesis by simp
  next
    case False
    have 1: "\<forall>s\<in>set (seen @ [i]). \<exists>k\<in>set (kept @ [(i, ?ab)]). same_ends (snd k) (line_ends cl s)"
      using Cons.prems(1) by (auto simp: same_ends_refl)
    have 2: "\<forall>k\<in>set (kept @ [(i, ?ab)]). fst k \<in> set (seen @ [i]) \<and> snd k = line_ends cl (fst k)"
      using Cons.prems(2) by auto
    from Cons.IH[OF 1 2] False iff show ?thesis by simp
  qed
qed

lemma first_of_ends_length: "length (first_of_ends cl seen ids) \<le> length ids"
  by (induction ids arbitrary: seen) (auto simp: le_SucI)

lemma first_of_ends_full:
  "length (first_of_ends cl seen ids) = length ids \<Longrightarrow> first_of_ends cl seen ids = ids"
proof (induction ids arbitrary: seen)
  case Nil
  then show ?case by simp
next
  case (Cons i ids)
  show ?case
  proof (cases "list_ex (\<lambda>j. same_ends (line_ends cl j) (line_ends cl i)) seen")
    case True
    with Cons.prems first_of_ends_length[of cl "seen @ [i]" ids] show ?thesis by simp
  next
    case False
    with Cons show ?thesis by simp
  qed
qed

lemma RemoveDuplicates_first_of_ends:
  "RemoveDuplicates cl lines = first_of_ends cl [] lines"
proof -
  have m: "map fst (RemoveDuplicates_loop cl lines []) = first_of_ends cl [] lines"
    using RemoveDuplicates_loop_first[of "[]" "[]" cl lines] by simp
  then have l: "length (RemoveDuplicates_loop cl lines []) = length (first_of_ends cl [] lines)"
    by (metis length_map)
  show ?thesis
    using m l first_of_ends_full[of cl "[]" lines]
    by (auto simp: RemoveDuplicates_def Let_def)
qed

lemma first_of_ends_mem:
  "x \<in> set (first_of_ends cl seen ids) \<Longrightarrow>
     x \<in> set ids \<and> \<not> list_ex (\<lambda>j. same_ends (line_ends cl j) (line_ends cl x)) seen"
proof (induction ids arbitrary: seen)
  case Nil
  then show ?case by simp
next
  case (Cons i ids)
  then show ?case
    by (fastforce simp: list_ex_iff split: if_splits)
qed

lemma first_of_ends_distinct_ends:
  "sorted_wrt (\<lambda>p q. \<not> same_ends p q) (map (line_ends cl) (first_of_ends cl seen ids))"
proof (induction ids arbitrary: seen)
  case Nil
  then show ?case by simp
next
  case (Cons i ids)
  have "\<not> same_ends (line_ends cl i) (line_ends cl x)"
    if "x \<in> set (first_of_ends cl (seen @ [i]) ids)" for x
    using first_of_ends_mem[OF that] by (auto simp: list_ex_iff)
  with Cons.IH[of "seen @ [i]"] show ?case by auto
qed

lemma first_of_ends_subseq: "subseq (first_of_ends cl seen ids) ids"
  by (induction ids arbitrary: seen) auto

text \<open>
  C10.  \<^verbatim>\<open>RemoveDuplicates\<close> keeps a line of the polygon exactly when no line
  listed before it joins the same two points (in either direction), in the order of the
  list; \<^verbatim>\<open>GetPolyStrips\<close> deduplicates the lines of every polygon before the
  StripPoints are built, so among the endpoint pairs that strip assembly reads for a
  polygon no two join the same two points.
\<close>

theorem RemoveDuplicates_keeps_first_of_ends:
  "RemoveDuplicates contLines lines = first_of_ends contLines [] lines
   \<and> subseq (RemoveDuplicates contLines lines) lines
   \<and> sorted_wrt (\<lambda>p q. \<not> same_ends p q) (assembly_lines contLines (RemoveDuplicates contLines lines))
   \<and> list_all (\<lambda>pl. sorted_wrt (\<lambda>p q. \<not> same_ends p q) (assembly_lines contLines (snd pl)))
        (dedupLines contLines conts)"
  by (simp add: RemoveDuplicates_first_of_ends first_of_ends_subseq assembly_lines_def
      first_of_ends_distinct_ends dedupLines_def list_all_iff)

theorem RemoveDuplicates_keeps_first_of_ends_witness:
  "RemoveDuplicates
     [\<lparr>cellType = VTK_LINE, cellPts = [0, 1]\<rparr>, \<lparr>cellType = VTK_LINE, cellPts = [1, 2]\<rparr>,
      \<lparr>cellType = VTK_LINE, cellPts = [1, 0]\<rparr>, \<lparr>cellType = VTK_LINE, cellPts = [0, 1]\<rparr>]
     [0, 1, 2, 3] = [0, 1]
   \<and> dedupLines
     [\<lparr>cellType = VTK_LINE, cellPts = [0, 1]\<rparr>, \<lparr>cellType = VTK_LINE, cellPts = [1, 2]\<rparr>,
      \<lparr>cellType = VTK_LINE, cellPts = [1, 0]\<rparr>, \<lparr>cellType = VTK_LINE, cellPts = [0, 1]\<rparr>]
     [7, 7, 7, 5] = [(5, [3]), (7, [0, 1])]"
  using RemoveDuplicates_keeps_first_of_ends
    [of "[\<lparr>cellType = VTK_LINE, cellPts = [0, 1]\<rparr>, \<lparr>cellType = VTK_LINE, cellPts = [1, 2]\<rparr>,
          \<lparr>cellType = VTK_LINE, cellPts = [1, 0]\<rparr>, \<lparr>cellType = VTK_LINE, cellPts = [0, 1]\<rparr>]"
        "[0, 1, 2, 3]" "[7, 7, 7, 5]"]
  by (simp add: dedupLines_def polyLines_def upt_rec RemoveDuplicates_def
      line_ends_def GetCellPoints_def same_ends_def)

subsection \<open>CleanStrips\<close>

lemma set_emplace: "set (emplace x s) = insert x (set s)"
  by (auto simp: emplace_def set_insort_key)

lemma set_foldl_emplace:
  "set (foldl (\<lambda>acc p. emplace (ind p) acc) inds s) = set inds \<union> set (map ind s)"
  by (induction s arbitrary: inds) (auto simp: set_emplace)

lemma FindHoles_strips_spec:
  "FindHoles_strips ps ss inds = Some (kept, inds') \<Longrightarrow>
     kept = filter (\<lambda>s. is_hole ps s \<noteq> Some True) ss \<and>
     set inds' = set inds \<union> set (map ind (concat (filter (\<lambda>s. is_hole ps s = Some True) ss)))"
proof (induction ss arbitrary: inds kept inds')
  case Nil
  then show ?case by simp
next
  case (Cons s ss)
  show ?case
  proof (cases "is_hole ps s")
    case None
    with Cons.prems show ?thesis by simp
  next
    case (Some b)
    show ?thesis
    proof (cases b)
      case True
      with Some Cons.prems
      have "FindHoles_strips ps ss (foldl (\<lambda>acc p. emplace (ind p) acc) inds s) = Some (kept, inds')"
        by simp
      from Cons.IH[OF this] Some True show ?thesis
        by (auto simp: set_foldl_emplace)
    next
      case False
      with Some Cons.prems obtain k where
        k: "FindHoles_strips ps ss inds = Some (k, inds')" "kept = s # k"
        by (auto split: option.splits)
      from Cons.IH[OF k(1)] k(2) Some False show ?thesis by simp
    qed
  qed
qed

lemma FindHoles_spec:
  "FindHoles es inds = Some (es', inds') \<Longrightarrow>
     es' = no_holes es \<and> set inds' = set inds \<union> set (map ind (concat (holes_of es)))"
proof (induction es arbitrary: inds es' inds')
  case Nil
  then show ?case by (simp add: holes_of_def no_holes_def)
next
  case (Cons e es)
  from Cons.prems obtain kept i1 es1 where
    a: "FindHoles_strips (pts (snd e)) (strips (snd e)) inds = Some (kept, i1)"
    and b: "FindHoles es i1 = Some (es1, inds')"
    and c: "es' = (fst e, (snd e)\<lparr>strips := kept\<rparr>) # es1"
    by (auto split: option.splits)
  from FindHoles_strips_spec[OF a] Cons.IH[OF b] c show ?case
    by (auto simp: holes_of_def no_holes_def)
qed

lemma FindHoles_strips_total:
  "list_all (\<lambda>s. is_hole ps s \<noteq> None) ss \<Longrightarrow> \<exists>res. FindHoles_strips ps ss inds = Some res"
proof (induction ss arbitrary: inds)
  case Nil
  then show ?case by simp
next
  case (Cons s ss)
  then obtain b where b: "is_hole ps s = Some b" by auto
  from Cons have "list_all (\<lambda>s. is_hole ps s \<noteq> None) ss" by simp
  from Cons.IH[OF this, of inds]
  obtain k i' where 1: "FindHoles_strips ps ss inds = Some (k, i')" by fastforce
  from Cons.IH[OF \<open>list_all (\<lambda>s. is_hole ps s \<noteq> None) ss\<close>,
      of "foldl (\<lambda>acc p. emplace (ind p) acc) inds s"]
  obtain res where 2: "FindHoles_strips ps ss (foldl (\<lambda>acc p. emplace (ind p) acc) inds s) = Some res"
    by blast
  from 1 2 b show ?case by (cases b) simp_all
qed

lemma is_hole_located:
  "s \<noteq> [] \<Longrightarrow> capt_at ps (ind (hd s)) \<noteq> None \<Longrightarrow> capt_at ps (ind (last s)) \<noteq> None
     \<Longrightarrow> is_hole ps s \<noteq> None"
  by (auto simp: is_hole_def split: option.splits)

lemma FindHoles_total:
  "ends_located es \<Longrightarrow> \<exists>res. FindHoles es inds = Some res"
proof (induction es arbitrary: inds)
  case Nil
  then show ?case by simp
next
  case (Cons e es)
  have "is_hole (pts (snd e)) s \<noteq> None" if "s \<in> set (strips (snd e))" for s
    using Cons.prems that by (intro is_hole_located) (auto simp: ends_located_def list_all_iff)
  then have "list_all (\<lambda>s. is_hole (pts (snd e)) s \<noteq> None) (strips (snd e))"
    by (simp add: list_all_iff)
  from FindHoles_strips_total[OF this, of inds]
  obtain kept i1 where a: "FindHoles_strips (pts (snd e)) (strips (snd e)) inds = Some (kept, i1)"
    by fastforce
  from Cons.prems have "ends_located es" by (simp add: ends_located_def)
  from Cons.IH[OF this, of i1] obtain es1 i2 where "FindHoles es i1 = Some (es1, i2)"
    by fastforce
  with a show ?case by simp
qed

lemma no_dropped_point:
  "(\<not> list_ex (\<lambda>p. ind p \<in> D) s) = (set (map ind s) \<inter> D = {})"
  by (auto simp: list_ex_iff)

lemma CleanOther_no_holes: "CleanOther inds (no_holes es) = cleaned (set inds) es"
  by (simp add: CleanOther_def no_holes_def cleaned_def no_dropped_point conj_commute o_def)

lemma DeleteCell_length [simp]: "length (DeleteCell cl i) = length cl"
  by (simp add: DeleteCell_def)

lemma foldl_DeleteCell_length [simp]: "length (foldl DeleteCell cl js) = length cl"
  by (induction js arbitrary: cl) auto

lemma DeleteCell_nth:
  "k < length cl \<Longrightarrow>
     DeleteCell cl i ! k = (if k = i then (cl ! k)\<lparr>cellType := VTK_EMPTY_CELL\<rparr> else cl ! k)"
  by (simp add: DeleteCell_def)

lemma foldl_DeleteCell_nth:
  "k < length cl \<Longrightarrow>
     foldl DeleteCell cl js ! k = (if k \<in> set js then (cl ! k)\<lparr>cellType := VTK_EMPTY_CELL\<rparr> else cl ! k)"
  by (induction js arbitrary: cl) (auto simp: DeleteCell_nth)

lemma set_GetPointCells:
  "set (GetPointCells cl p) = {i. i < length cl \<and> p \<in> set (cellPts (cl ! i))}"
  by (auto simp: GetPointCells_def)



lemma delete_at_point:
  "foldl DeleteCell cl (GetPointCells cl p) = lines_without_pt p cl"
  by (rule nth_equalityI) (auto simp: foldl_DeleteCell_nth set_GetPointCells lines_without_pt_def)

lemma lines_without_insert:
  "lines_without D (lines_without_pt p cl) = lines_without (insert p D) cl"
  by (auto simp: lines_without_def lines_without_pt_def)

lemma DeleteLines_spec: "DeleteLines cl inds = lines_without (set inds) cl"
proof (induction inds arbitrary: cl)
  case Nil
  show ?case by (simp add: DeleteLines_def lines_without_def)
next
  case (Cons i inds)
  have "DeleteLines cl (i # inds) = DeleteLines (lines_without_pt i cl) inds"
    by (simp add: DeleteLines_def delete_at_point)
  with Cons[of "lines_without_pt i cl"] show ?case
    by (simp add: lines_without_insert)
qed

lemma length_filter_full: "(length (filter P xs) = length xs) = list_all P xs"
proof -
  have "length (filter P xs) + length (filter (\<lambda>x. \<not> P x) xs) = length xs"
    by (rule sum_length_filter_compl)
  then have "(length (filter P xs) = length xs) = (filter (\<lambda>x. \<not> P x) xs = [])"
    by auto
  then show ?thesis by (auto simp: filter_empty_conv list_all_iff)
qed

lemma all_deleted_iff: "all_deleted cl = list_all (\<lambda>c. cellType c = VTK_EMPTY_CELL) cl"
proof -
  have "filter (\<lambda>c. cellType c = VTK_EMPTY_CELL) (map (nth cl) [0..<length cl])
      = map (nth cl) (filter (\<lambda>i. GetCellType cl i = VTK_EMPTY_CELL) [0..<length cl])"
    by (simp add: filter_map comp_def GetCellType_def)
  then have "length (filter (\<lambda>i. GetCellType cl i = VTK_EMPTY_CELL) [0..<length cl])
      = length (filter (\<lambda>c. cellType c = VTK_EMPTY_CELL) cl)"
    by (metis length_map map_nth)
  then show ?thesis
    by (simp add: all_deleted_def Let_def length_filter_full)
qed

lemma CleanStrips_Some:
  assumes "CleanStrips A B cl = Some (flag, A', B', cl')"
  shows "flag = list_all (\<lambda>c. cellType c = VTK_EMPTY_CELL) cl'
       \<and> A' = cleaned (dropped A B) A \<and> B' = cleaned (dropped A B) B
       \<and> cl' = lines_without (dropped A B) cl"
proof -
  from assms obtain hA iA hB inds where
    a: "FindHoles A [] = Some (hA, iA)" and b: "FindHoles B iA = Some (hB, inds)"
    and r: "cl' = DeleteLines cl inds" "flag = all_deleted cl'"
       "A' = CleanOther inds hA" "B' = CleanOther inds hB"
    by (auto simp: CleanStrips_def Let_def split: option.splits)
  from FindHoles_spec[OF a] FindHoles_spec[OF b]
  have "hA = no_holes A" "hB = no_holes B" "set inds = dropped A B"
    by (auto simp: dropped_def)
  with r show ?thesis
    by (simp add: CleanOther_no_holes DeleteLines_spec all_deleted_iff)
qed

lemma CleanStrips_total:
  assumes "ends_located A" "ends_located B"
  shows "\<exists>res. CleanStrips A B cl = Some res"
proof -
  from FindHoles_total[OF assms(1)] obtain hA iA where a: "FindHoles A [] = Some (hA, iA)"
    by fastforce
  from FindHoles_total[OF assms(2)] obtain hB inds where "FindHoles B iA = Some (hB, inds)"
    by fastforce
  with a show ?thesis by (simp add: CleanStrips_def Let_def)
qed

lemma CleanStrips_eq:
  assumes "ends_located A" "ends_located B"
  shows "CleanStrips A B cl =
     Some (list_all (\<lambda>c. cellType c = VTK_EMPTY_CELL) (lines_without (dropped A B) cl),
           cleaned (dropped A B) A, cleaned (dropped A B) B, lines_without (dropped A B) cl)"
proof -
  from CleanStrips_total[OF assms] obtain flag A' B' cl'
    where r: "CleanStrips A B cl = Some (flag, A', B', cl')"
    by (metis surj_pair)
  from CleanStrips_Some[OF r] r show ?thesis by simp
qed

text \<open>
  C7.  When the ends of all strips are located (so that no \<^verbatim>\<open>at\<close> throws),
  \<^verbatim>\<open>CleanStrips\<close> returns; it leaves the bundles without their holes and without
  the strips through a dropped point, the contact lines with those at a dropped point
  deleted, and its flag is true exactly when every contact line is then deleted.  When
  the stages before it have passed, a true flag makes \<^verbatim>\<open>RequestData\<close> fail with
  "There is no contact.".
\<close>

theorem CleanStrips_reports_no_contact:
  assumes "ends_located polyStripsA" and "ends_located polyStripsB"
  shows "CleanStrips polyStripsA polyStripsB contLines =
           Some (list_all (\<lambda>c. cellType c = VTK_EMPTY_CELL)
                   (lines_without (dropped polyStripsA polyStripsB) contLines),
                 cleaned (dropped polyStripsA polyStripsB) polyStripsA,
                 cleaned (dropped polyStripsA polyStripsB) polyStripsB,
                 lines_without (dropped polyStripsA polyStripsB) contLines)
       \<and> (contLines \<noteq> [] \<and> \<not> line_end_alone contLines numPts
            \<and> GetPolyStrips key locateA crosses contLines contsA = Some (False, polyStripsA)
            \<and> GetPolyStrips key locateB crosses contLines contsB = Some (False, polyStripsB)
            \<and> list_all (\<lambda>c. cellType c = VTK_EMPTY_CELL)
                  (lines_without (dropped polyStripsA polyStripsB) contLines)
          \<longrightarrow> RequestData key locateA locateB crosses weave modPdA modPdB contLines numPts contsA contsB
                = Failed ''There is no contact.'')"
  using CleanStrips_eq[OF assms, of contLines]
  by (auto simp: RequestData_def)

theorem CleanStrips_reports_no_contact_witness:
  "ends_located doubled_strip
   \<and> CleanStrips doubled_strip doubled_strip double_line
      = Some (True, two_points Capt_Not (4, 5, 0) (6, 5, 0) [], two_points Capt_Not (4, 5, 0) (6, 5, 0) [],
              [\<lparr>cellType = VTK_EMPTY_CELL, cellPts = [0, 1]\<rparr>,
               \<lparr>cellType = VTK_EMPTY_CELL, cellPts = [1, 0]\<rparr>])
   \<and> RequestData id (two_points Capt_Not (4, 5, 0) (6, 5, 0)) (two_points Capt_Not (4, 5, 0) (6, 5, 0))
        (\<lambda>p. False) idle square square double_line 2 [0, 0] [0, 0]
      = Failed ''There is no contact.''"
proof -
  have located: "ends_located doubled_strip"
    by code_simp
  have lines: "lines_without (dropped doubled_strip doubled_strip) double_line
      = [\<lparr>cellType = VTK_EMPTY_CELL, cellPts = [0, 1]\<rparr>, \<lparr>cellType = VTK_EMPTY_CELL, cellPts = [1, 0]\<rparr>]"
    by code_simp
  have bundles: "cleaned (dropped doubled_strip doubled_strip) doubled_strip
      = two_points Capt_Not (4, 5, 0) (6, 5, 0) []"
    by code_simp
  have before: "double_line \<noteq> [] \<and> \<not> line_end_alone double_line 2
      \<and> GetPolyStrips id (two_points Capt_Not (4, 5, 0) (6, 5, 0)) (\<lambda>p. False) double_line [0, 0]
          = Some (False, doubled_strip)"
    by code_simp
  note main = CleanStrips_reports_no_contact[OF located located, of double_line 2 id
      "two_points Capt_Not (4, 5, 0) (6, 5, 0)" "\<lambda>p. False" "[0, 0]"
      "two_points Capt_Not (4, 5, 0) (6, 5, 0)" "[0, 0]" idle square square, unfolded lines bundles]
  show ?thesis
    using located before main by simp
qed




subsection \<open>GetPolyStrips\<close>

lemma emplace_empty: "emplace x [] = [x]"
  by (simp add: emplace_def)

text \<open>Every set stored in the map \<^verbatim>\<open>collapsed\<close> stays empty, and the search finds nothing.\<close>

lemma collapsed_pts_False:
  assumes "\<forall>k s. collapsed k = Some s \<longrightarrow> s = []"
  shows "fst (collapsed_pts key collapsed sps) = False
     \<and> (\<forall>k s. snd (collapsed_pts key collapsed sps) k = Some s \<longrightarrow> s = [])"
  using assms
proof (induction sps arbitrary: collapsed)
  case Nil
  then show ?case by simp
next
  case (Cons sp sps)
  show ?case
  proof (cases "Boundary (capt sp)")
    case False
    with Cons show ?thesis by simp
  next
    case True
    let ?k = "key (cutPt sp)"
    have stored: "(case collapsed ?k of None \<Rightarrow> [] | Some s \<Rightarrow> s) = []"
      using Cons.prems by (auto split: option.splits)
    have inv: "\<forall>k s. (collapsed(?k \<mapsto> [])) k = Some s \<longrightarrow> s = []"
      using Cons.prems by auto
    have "collapsed_pts key collapsed (sp # sps) = collapsed_pts key (collapsed(?k \<mapsto> [])) sps"
      using True stored by (simp add: Let_def emplace_empty)
    with Cons.IH[OF inv] show ?thesis by metis
  qed
qed

lemma collapsed_polys_False:
  assumes "\<forall>k s. collapsed k = Some s \<longrightarrow> s = []"
  shows "collapsed_polys key collapsed polyStrips = False"
  using assms
proof (induction polyStrips arbitrary: collapsed)
  case Nil
  then show ?case by simp
next
  case (Cons e es)
  obtain b c where bc: "collapsed_pts key collapsed (map snd (pts (snd e))) = (b, c)"
    by (cases "collapsed_pts key collapsed (map snd (pts (snd e)))")
  from collapsed_pts_False[OF Cons.prems, of key "map snd (pts (snd e))"] bc
  have "b = False" "\<forall>k s. c k = Some s \<longrightarrow> s = []" by simp_all
  with Cons.IH[of c] bc show ?case by simp
qed

text \<open>
  So \<^verbatim>\<open>GetPolyStrips\<close> returns true only for a crossing of strips, whatever the
  capture points are.
\<close>

lemma GetPolyStrips_guard_silent:
  "GetPolyStrips key locate crosses contLines conts =
     (case assemble_polys contLines (dedupLines contLines conts) (locate (dedupLines contLines conts)) of
        None \<Rightarrow> None
      | Some polyStrips' \<Rightarrow> Some (list_ex (\<lambda>e. crosses (snd e)) polyStrips', polyStrips'))"
  by (simp add: GetPolyStrips_def Let_def collapsed_polys_False)

text \<open>
  C1.  The claim: when two different boundary-captured StripPoints of one polygon have
  the same snapped coordinate, \<^verbatim>\<open>GetPolyStrips\<close> returns true and
  \<^verbatim>\<open>RequestData\<close> fails with "Strips are invalid.".  In the code the set that
  receives the index is a copy (\<^verbatim>\<open>auto inds = collapsed[...]\<close>), so it never holds
  more than one index: for the two contact points 0 and 1 of \<open>double_line\<close>, both
  snapped to the corner \<open>(0, 0, 0)\<close> of the square, \<^verbatim>\<open>GetPolyStrips\<close> returns false
  and \<^verbatim>\<open>RequestData\<close> passes on.
\<close>

theorem GetPolyStrips_misses_equal_captures:
  "equal_captures id (two_points Capt_A (0, 0, 0) (0, 0, 0) [(0, [0])])
   \<and> GetPolyStrips id (two_points Capt_A (0, 0, 0) (0, 0, 0)) (\<lambda>p. False) double_line [0, 0]
       = Some (False, single_strip Capt_A (0, 0, 0) (0, 0, 0))
   \<and> RequestData id (two_points Capt_A (0, 0, 0) (0, 0, 0)) (two_points Capt_A (0, 0, 0) (0, 0, 0))
        (\<lambda>p. False) idle square square double_line 2 [0, 0] [0, 0]
       = Passed (square, square, double_line)"
  by code_simp

subsection \<open>CutCells\<close>

lemma reemit_loop:
  "foldl (\<lambda>(cell, pd') c. (case InsertNextPoint pd' c of (i, pd'') \<Rightarrow> (cell @ [i], pd'')))
      (cell0, pd) ring
     = (cell0 @ [length (points pd)..<length (points pd) + length ring],
        pd\<lparr>points := points pd @ ring\<rparr>)"
proof (induction ring arbitrary: cell0 pd)
  case Nil
  then show ?case by simp
next
  case (Cons c ring)
  have "[length (points pd)..<length (points pd) + length (c # ring)]
      = length (points pd) # [Suc (length (points pd))..<Suc (length (points pd)) + length ring]"
    by (simp add: upt_rec)
  with Cons[of "cell0 @ [length (points pd)]" "pd\<lparr>points := points pd @ [c]\<rparr>"]
  show ?case by (simp add: InsertNextPoint_def)
qed

lemma reemit_eq:
  "reemit pd polyInd pStrips =
     pd\<lparr>points := points pd @ map (GetPoint pd) (poly pStrips),
        cells := DeleteCell (cells pd @
           [\<lparr>cellType = VTK_POLYGON,
             cellPts = [length (points pd)..<length (points pd) + length (poly pStrips)]\<rparr>]) polyInd,
        origCellIds := origCellIds pd @ [origCellIds pd ! polyInd]\<rparr>"
  using reemit_loop[of "[]" pd "map (GetPoint pd) (poly pStrips)"]
  by (simp add: reemit_def Let_def InsertNextCell_def)

text \<open>
  C5.  For a polygon whose StripPoints are all captured on vertices (capture A or B, as
  the spec reads "boundary-captured" for the shortcut) and whose snapped coordinates are,
  as a set, the coordinates of its ring, one round of \<^verbatim>\<open>CutCells\<close> appends the
  points of the ring once more, appends one polygon on these new points (the same ring
  of coordinates), gives it the \<^verbatim>\<open>OrigCellId\<close> of the polygon, and marks the
  polygon deleted; every other cell stays, and the weaving is not called (the result
  is the same for every \<open>weave\<close>).
\<close>

theorem CutCell_coincident_reemits:
  assumes "coincident key pd pStrips" and "polyInd < length (cells pd)"
  shows "\<exists>pd'. CutCell key weave pd (polyInd, pStrips) = Some pd'
     \<and> points pd' = points pd @ map (GetPoint pd) (poly pStrips)
     \<and> cells pd' = (cells pd)[polyInd := (cells pd ! polyInd)\<lparr>cellType := VTK_EMPTY_CELL\<rparr>]
          @ [\<lparr>cellType = VTK_POLYGON,
               cellPts = [length (points pd)..<length (points pd) + length (poly pStrips)]\<rparr>]
     \<and> map (GetPoint pd') [length (points pd)..<length (points pd) + length (poly pStrips)]
          = map (GetPoint pd) (poly pStrips)
     \<and> origCellIds pd' = origCellIds pd @ [origCellIds pd ! polyInd]"
proof -
  let ?ring = "map (GetPoint pd) (poly pStrips)"
  let ?n = "length (points pd)"
  define pd' where "pd' = reemit pd polyInd pStrips"
  have 1: "CutCell key weave pd (polyInd, pStrips) = Some pd'"
    using assms(1) by (simp add: CutCell_def pd'_def)
  have 2: "points pd' = points pd @ ?ring"
    by (simp add: pd'_def reemit_eq)
  have 3: "cells pd' = (cells pd)[polyInd := (cells pd ! polyInd)\<lparr>cellType := VTK_EMPTY_CELL\<rparr>]
          @ [\<lparr>cellType = VTK_POLYGON, cellPts = [?n..<?n + length (poly pStrips)]\<rparr>]"
    using assms(2) by (simp add: pd'_def reemit_eq DeleteCell_def list_update_append nth_append)
  have 4: "map (GetPoint pd') [?n..<?n + length (poly pStrips)] = ?ring"
    by (rule nth_equalityI) (simp_all add: GetPoint_def 2 nth_append)
  have 5: "origCellIds pd' = origCellIds pd @ [origCellIds pd ! polyInd]"
    by (simp add: pd'_def reemit_eq)
  from 1 2 3 4 5 show ?thesis by blast
qed

theorem CutCell_coincident_reemits_witness:
  "coincident id square on_corners \<and> 0 < length (cells square)
   \<and> CutCell id idle square (0, on_corners)
       = Some \<lparr>points = [(0, 0, 0), (10, 0, 0), (10, 10, 0), (0, 10, 0),
                           (0, 0, 0), (10, 0, 0), (10, 10, 0), (0, 10, 0)],
                 cells = [\<lparr>cellType = VTK_EMPTY_CELL, cellPts = [0, 1, 2, 3]\<rparr>,
                          \<lparr>cellType = VTK_POLYGON, cellPts = [4, 5, 6, 7]\<rparr>],
                 origCellIds = [0, 0]\<rparr>
   \<and> CutCells id idle square [(0, on_corners)]
       = Some \<lparr>points = [(0, 0, 0), (10, 0, 0), (10, 10, 0), (0, 10, 0),
                           (0, 0, 0), (10, 0, 0), (10, 10, 0), (0, 10, 0)],
                 cells = [\<lparr>cellType = VTK_POLYGON, cellPts = [4, 5, 6, 7]\<rparr>],
                 origCellIds = [0]\<rparr>"
proof -
  have c: "coincident id square on_corners"
    by code_simp
  have l: "0 < length (cells square)"
    by code_simp
  have r: "CutCells id idle square [(0, on_corners)]
       = Some \<lparr>points = [(0, 0, 0), (10, 0, 0), (10, 10, 0), (0, 10, 0),
                           (0, 0, 0), (10, 0, 0), (10, 10, 0), (0, 10, 0)],
                 cells = [\<lparr>cellType = VTK_POLYGON, cellPts = [4, 5, 6, 7]\<rparr>],
                 origCellIds = [0]\<rparr>"
    by code_simp
  from CutCell_coincident_reemits[OF c l, of idle]
  obtain pd' where pd': "CutCell id idle square (0, on_corners) = Some pd'"
    "points pd' = points square @ map (GetPoint square) (poly on_corners)"
    "cells pd' = (cells square)[0 := (cells square ! 0)\<lparr>cellType := VTK_EMPTY_CELL\<rparr>]
          @ [\<lparr>cellType = VTK_POLYGON,
               cellPts = [length (points square)..<length (points square) + length (poly on_corners)]\<rparr>]"
    "origCellIds pd' = origCellIds square @ [origCellIds square ! 0]"
    by blast
  have "pd' = \<lparr>points = points pd', cells = cells pd', origCellIds = origCellIds pd'\<rparr>"
    by simp
  also have "\<dots> = \<lparr>points = [(0, 0, 0), (10, 0, 0), (10, 10, 0), (0, 10, 0),
                           (0, 0, 0), (10, 0, 0), (10, 10, 0), (0, 10, 0)],
                 cells = [\<lparr>cellType = VTK_EMPTY_CELL, cellPts = [0, 1, 2, 3]\<rparr>,
                          \<lparr>cellType = VTK_POLYGON, cellPts = [4, 5, 6, 7]\<rparr>],
                 origCellIds = [0, 0]\<rparr>"
    unfolding pd'(2,3,4) by (simp add: square_def on_corners_def GetPoint_def upt_rec)
  finally show ?thesis using c l r pd'(1) by simp
qed

lemma both_branched_not_coincident:
  assumes "list_ex (both_branched (pts pStrips)) (strips pStrips)"
  shows "\<not> coincident key pd pStrips"
proof -
  from assms obtain s where "both_branched (pts pStrips) s"
    by (auto simp: list_ex_iff)
  then have "capt_of (pts pStrips) (ind (hd s)) = Capt_Branched"
    by (simp add: both_branched_def)
  then obtain sp where "map_of (pts pStrips) (ind (hd s)) = Some sp" "capt sp = Capt_Branched"
    by (auto simp: capt_of_def split: option.splits)
  then have "(ind (hd s), sp) \<in> set (pts pStrips)" "capt sp \<noteq> Capt_A" "capt sp \<noteq> Capt_B"
    by (auto dest: map_of_SomeD)
  then have "\<not> list_all (\<lambda>e. capt (snd e) = Capt_A \<or> capt (snd e) = Capt_B) (pts pStrips)"
    by (force simp: list_all_iff)
  then show ?thesis
    by (simp add: coincident_def)
qed

lemma CutCells_both_branched:
  "has_both_branched polyStrips \<Longrightarrow> CutCells key weave pd polyStrips = None"
proof (induction polyStrips arbitrary: pd)
  case Nil
  then show ?case by (simp add: has_both_branched_def)
next
  case (Cons e es)
  show ?case
  proof (cases "list_ex (both_branched (pts (snd e))) (strips (snd e))")
    case True
    with both_branched_not_coincident[OF True, of key pd] show ?thesis
      by (simp add: CutCell_def)
  next
    case False
    with Cons.prems have "has_both_branched es"
      by (simp add: has_both_branched_def)
    with Cons.IH show ?thesis
      by (simp split: option.splits)
  qed
qed

text \<open>
  C6.  When a strip of a polygon has two branched ends (such a strip is no hole),
  \<^verbatim>\<open>CutCells\<close> returns true (\<open>None\<close>), for every weaving of the other polygons
  that returns; when this is so for a bundle of either mesh after the stages before
  have passed, \<^verbatim>\<open>RequestData\<close> fails with "CutCells failed.".
\<close>

theorem CutCells_both_branched_fails:
  "(has_both_branched polyStrips \<longrightarrow> CutCells key weave pd polyStrips = None)
   \<and> (contLines \<noteq> [] \<and> \<not> line_end_alone contLines numPts
        \<and> GetPolyStrips key locateA crosses contLines contsA = Some (False, polyStripsA)
        \<and> GetPolyStrips key locateB crosses contLines contsB = Some (False, polyStripsB)
        \<and> CleanStrips polyStripsA polyStripsB contLines = Some (False, polyStripsA', polyStripsB', contLines')
        \<and> (has_both_branched polyStripsA' \<or> has_both_branched polyStripsB')
      \<longrightarrow> RequestData key locateA locateB crosses weave modPdA modPdB contLines numPts contsA contsB
            = Failed ''CutCells failed.'')"
proof (intro conjI impI)
  assume "has_both_branched polyStrips"
  then show "CutCells key weave pd polyStrips = None"
    by (rule CutCells_both_branched)
next
  assume a: "contLines \<noteq> [] \<and> \<not> line_end_alone contLines numPts
        \<and> GetPolyStrips key locateA crosses contLines contsA = Some (False, polyStripsA)
        \<and> GetPolyStrips key locateB crosses contLines contsB = Some (False, polyStripsB)
        \<and> CleanStrips polyStripsA polyStripsB contLines = Some (False, polyStripsA', polyStripsB', contLines')
        \<and> (has_both_branched polyStripsA' \<or> has_both_branched polyStripsB')"
  then have "CutCells key weave modPdA polyStripsA' = None
      \<or> (\<forall>pdA. CutCells key weave pdA polyStripsB' = None)"
    using CutCells_both_branched by blast
  with a show "RequestData key locateA locateB crosses weave modPdA modPdB contLines numPts contsA contsB
            = Failed ''CutCells failed.''"
    by (auto simp: RequestData_def split: option.splits)
qed

theorem CutCells_both_branched_fails_witness:
  "has_both_branched (single_strip Capt_Branched (4, 5, 0) (6, 5, 0))
   \<and> CutCells id idle square (single_strip Capt_Branched (4, 5, 0) (6, 5, 0)) = None
   \<and> double_line \<noteq> [] \<and> \<not> line_end_alone double_line 2
   \<and> GetPolyStrips id (two_points Capt_Branched (4, 5, 0) (6, 5, 0)) (\<lambda>p. False) double_line [0, 0]
       = Some (False, single_strip Capt_Branched (4, 5, 0) (6, 5, 0))
   \<and> CleanStrips (single_strip Capt_Branched (4, 5, 0) (6, 5, 0))
        (single_strip Capt_Branched (4, 5, 0) (6, 5, 0)) double_line
       = Some (False, single_strip Capt_Branched (4, 5, 0) (6, 5, 0),
               single_strip Capt_Branched (4, 5, 0) (6, 5, 0), double_line)
   \<and> RequestData id (two_points Capt_Branched (4, 5, 0) (6, 5, 0))
        (two_points Capt_Branched (4, 5, 0) (6, 5, 0)) (\<lambda>p. False) idle square square
        double_line 2 [0, 0] [0, 0]
       = Failed ''CutCells failed.''"
proof -
  let ?S = "single_strip Capt_Branched (4, 5, 0) (6, 5, 0)"
  let ?L = "two_points Capt_Branched (4, 5, 0) (6, 5, 0)"
  have b: "has_both_branched ?S"
    by code_simp
  have before: "double_line \<noteq> [] \<and> \<not> line_end_alone double_line 2
      \<and> GetPolyStrips id ?L (\<lambda>p. False) double_line [0, 0] = Some (False, ?S)
      \<and> GetPolyStrips id ?L (\<lambda>p. False) double_line [0, 0] = Some (False, ?S)
      \<and> CleanStrips ?S ?S double_line = Some (False, ?S, ?S, double_line)"
    by code_simp
  from CutCells_both_branched_fails[of ?S id idle square double_line 2 ?L "\<lambda>p. False" "[0, 0]" ?S
      ?L "[0, 0]" ?S ?S ?S double_line square]
  show ?thesis
    using b before by blast
qed

subsection \<open>The dihedral classifier\<close>

text \<open>
  C3.  When \<^verbatim>\<open>pT\<close> is congruent to neither polygon of the pair, \<^verbatim>\<open>GetLoc\<close> sets
  \<^verbatim>\<open>pT.loc\<close> to Inside when the angle \<open>beta\<close> from \<^verbatim>\<open>pA.r\<close> to \<^verbatim>\<open>pT.r\<close> is
  greater than the angle \<open>alpha\<close> from \<^verbatim>\<open>pA.r\<close> to \<^verbatim>\<open>pB.r\<close> (both about
  \<^verbatim>\<open>pA.e\<close>), to Outside when it is not, and leaves the pair as it is.
\<close>

theorem GetLoc_not_congruent:
  assumes "IsCongruent (pA pp) pT = Congr_Not" and "IsCongruent (pB pp) pT = Congr_Not"
  shows "(loc (snd (GetLoc GetAngle pp pT mode)) = Loc_Inside)
           = (GetAngle (r (pA pp)) (r pT) (e (pA pp)) > GetAngle (r (pA pp)) (r (pB pp)) (e (pA pp)))
       \<and> (loc (snd (GetLoc GetAngle pp pT mode)) = Loc_Outside)
           = (\<not> GetAngle (r (pA pp)) (r pT) (e (pA pp)) > GetAngle (r (pA pp)) (r (pB pp)) (e (pA pp)))
       \<and> fst (GetLoc GetAngle pp pT mode) = pp"
  using assms by (simp add: GetLoc_def Let_def)

theorem GetLoc_not_congruent_witness:
  "IsCongruent \<lparr>polyId = 0, ptIdA = 0, ptIdB = 1, n = (0, 0, 1), e = (0, 1, 0), r = (1, 0, 0), loc = Loc_None\<rparr>
               \<lparr>polyId = 5, ptIdA = 7, ptIdB = 8, n = (-1, 0, 0), e = (0, 1, 0), r = (0, 0, -1), loc = Loc_None\<rparr>
     = Congr_Not
   \<and> IsCongruent \<lparr>polyId = 1, ptIdA = 1, ptIdB = 0, n = (0, 0, 1), e = (0, -1, 0), r = (-1, 0, 0), loc = Loc_None\<rparr>
               \<lparr>polyId = 5, ptIdA = 7, ptIdB = 8, n = (-1, 0, 0), e = (0, 1, 0), r = (0, 0, -1), loc = Loc_None\<rparr>
     = Congr_Not
   \<and> loc (snd (GetLoc (\<lambda>vA vB vN. 1 - Dot vA vB)
        \<lparr>pA = \<lparr>polyId = 0, ptIdA = 0, ptIdB = 1, n = (0, 0, 1), e = (0, 1, 0), r = (1, 0, 0), loc = Loc_None\<rparr>,
          pB = \<lparr>polyId = 1, ptIdA = 1, ptIdB = 0, n = (0, 0, 1), e = (0, -1, 0), r = (-1, 0, 0), loc = Loc_None\<rparr>\<rparr>
        \<lparr>polyId = 5, ptIdA = 7, ptIdB = 8, n = (-1, 0, 0), e = (0, 1, 0), r = (0, 0, -1), loc = Loc_None\<rparr>
        OPER_UNION))
     = Loc_Outside"
proof -
  let ?A = "\<lparr>polyId = 0, ptIdA = 0, ptIdB = 1, n = (0, 0, 1), e = (0, 1, 0), r = (1, 0, 0), loc = Loc_None\<rparr>"
  let ?B = "\<lparr>polyId = 1, ptIdA = 1, ptIdB = 0, n = (0, 0, 1), e = (0, -1, 0), r = (-1, 0, 0), loc = Loc_None\<rparr>"
  let ?T = "\<lparr>polyId = 5, ptIdA = 7, ptIdB = 8, n = (-1, 0, 0), e = (0, 1, 0), r = (0, 0, -1), loc = Loc_None\<rparr>"
  have a: "IsCongruent (pA \<lparr>pA = ?A, pB = ?B\<rparr>) ?T = Congr_Not"
    by (simp add: IsCongruent_def eps_def)
  have b: "IsCongruent (pB \<lparr>pA = ?A, pB = ?B\<rparr>) ?T = Congr_Not"
    by (simp add: IsCongruent_def eps_def)
  from GetLoc_not_congruent[OF a b, of "\<lambda>vA vB vN. 1 - Dot vA vB" OPER_UNION] a b
  show ?thesis by simp
qed

subsection \<open>CombineRegions\<close>

lemma set_located: "set (located locs l) = {k. (k, l) \<in> set locs}"
  by (force simp: located_def)

lemma set_not_involved: "set (not_involved locs num) = {i. i < num \<and> i \<notin> fst ` set locs}"
  by (auto simp: not_involved_def)

text \<open>
  C4.  The regions given to the two connectivity filters: under UNION those labelled
  Outside in A and Outside in B, under INTERSECTION Inside and Inside, under DIFFERENCE
  Outside in A and Inside in B, under DIFFERENCE2 Inside in A and Outside in B; the
  regions without a label (seen at no contact line) come in addition for both meshes
  under UNION, for mesh A under DIFFERENCE and for mesh B under DIFFERENCE2, and for
  no other mesh and operator.
\<close>

theorem SpecifiedRegions_per_operator:
  "SpecifiedRegions OPER_UNION locsA locsB numA numB
     = (located locsA Loc_Outside @ not_involved locsA numA,
        located locsB Loc_Outside @ not_involved locsB numB)
   \<and> SpecifiedRegions OPER_INTERSECTION locsA locsB numA numB
     = (located locsA Loc_Inside, located locsB Loc_Inside)
   \<and> SpecifiedRegions OPER_DIFFERENCE locsA locsB numA numB
     = (located locsA Loc_Outside @ not_involved locsA numA, located locsB Loc_Inside)
   \<and> SpecifiedRegions OPER_DIFFERENCE2 locsA locsB numA numB
     = (located locsA Loc_Inside, located locsB Loc_Outside @ not_involved locsB numB)
   \<and> set (located locsA l) = {k. (k, l) \<in> set locsA}
   \<and> set (not_involved locsA numA) = {i. i < numA \<and> i \<notin> fst ` set locsA}"
  by (simp add: SpecifiedRegions_def comb_def set_located set_not_involved)

theorem SpecifiedRegions_per_operator_witness:
  "SpecifiedRegions OPER_UNION [(0, Loc_Outside), (2, Loc_Inside)] [(0, Loc_Inside), (1, Loc_Outside)] 4 2
     = ([0, 1, 3], [1])
   \<and> SpecifiedRegions OPER_INTERSECTION [(0, Loc_Outside), (2, Loc_Inside)] [(0, Loc_Inside), (1, Loc_Outside)] 4 2
     = ([2], [0])
   \<and> SpecifiedRegions OPER_DIFFERENCE [(0, Loc_Outside), (2, Loc_Inside)] [(0, Loc_Inside), (1, Loc_Outside)] 4 2
     = ([0, 1, 3], [0])
   \<and> SpecifiedRegions OPER_DIFFERENCE2 [(0, Loc_Outside), (2, Loc_Inside)] [(0, Loc_Inside), (1, Loc_Outside)] 4 3
     = ([2], [1, 2])"
  using SpecifiedRegions_per_operator[of "[(0, Loc_Outside), (2, Loc_Inside)]"
      "[(0, Loc_Inside), (1, Loc_Outside)]" 4 2 Loc_Outside]
    SpecifiedRegions_per_operator[of "[(0, Loc_Outside), (2, Loc_Inside)]"
      "[(0, Loc_Inside), (1, Loc_Outside)]" 4 3 Loc_Outside]
  by (simp add: located_def not_involved_def upt_rec)

subsection \<open>MergePoints\<close>








lemma ReplaceCellPoint_length [simp]: "length (ReplaceCellPoint cs c old new) = length cs"
  by (simp add: ReplaceCellPoint_def)














subsection \<open>Strip assembly locates the ends of its strips\<close>

text \<open>
  \<^verbatim>\<open>FindRight\<close> and \<^verbatim>\<open>FindLeft\<close> read the capture of the end they extend with
  \<^verbatim>\<open>at\<close>, so a strip that assembly returns has both ends among the keys of
  \<^verbatim>\<open>pts\<close>; \<^verbatim>\<open>CompleteStrips\<close> keeps that.  This is the condition
  \<open>ends_located\<close> under which \<^verbatim>\<open>CleanStrips\<close> throws nothing.
\<close>

lemma while_FindRight_last:
  "while_FindRight ps ls s i = Some (s', ls') \<Longrightarrow> s \<noteq> [] \<Longrightarrow>
     s' \<noteq> [] \<and> capt_at ps (ind (last s')) \<noteq> None \<and> hd s' = hd s"
proof (induction ps ls s i rule: while_FindRight.induct)
  case (1 ps ls s stripId)
  show ?case
  proof (cases "FindRight ps ls s stripId")
    case Thrown
    with "1.prems" show ?thesis by (simp add: while_FindRight.simps[of ps ls])
  next
    case NotFound
    then have "capt_at ps (ind (last s)) \<noteq> None"
      by (auto simp: FindRight_def split: option.splits)
    with "1.prems" NotFound show ?thesis by (simp add: while_FindRight.simps[of ps ls])
  next
    case (Found x)
    obtain s1 ls1 where x: "x = (s1, ls1)" by (cases x)
    from "1.prems" Found x have run: "while_FindRight ps ls1 s1 stripId = Some (s', ls')"
      by (simp add: while_FindRight.simps[of ps ls])
    from Found x "1.prems"(2) have s1: "s1 \<noteq> []" "hd s1 = hd s"
      by (auto simp: FindRight_def split: option.splits if_splits)
    from "1.IH"[OF Found x[symmetric] run s1(1)] s1(2) show ?thesis by simp
  qed
qed

lemma while_FindLeft_hd:
  "while_FindLeft ps ls s i = Some (s', ls') \<Longrightarrow> s \<noteq> [] \<Longrightarrow>
     s' \<noteq> [] \<and> capt_at ps (ind (hd s')) \<noteq> None \<and> last s' = last s"
proof (induction ps ls s i rule: while_FindLeft.induct)
  case (1 ps ls s stripId)
  show ?case
  proof (cases "FindLeft ps ls s stripId")
    case Thrown
    with "1.prems" show ?thesis by (simp add: while_FindLeft.simps[of ps ls])
  next
    case NotFound
    then have "capt_at ps (ind (hd s)) \<noteq> None"
      by (auto simp: FindLeft_def split: option.splits)
    with "1.prems" NotFound show ?thesis by (simp add: while_FindLeft.simps[of ps ls])
  next
    case (Found x)
    obtain s1 ls1 where x: "x = (s1, ls1)" by (cases x)
    from "1.prems" Found x have run: "while_FindLeft ps ls1 s1 stripId = Some (s', ls')"
      by (simp add: while_FindLeft.simps[of ps ls])
    from Found x "1.prems"(2) have s1: "s1 \<noteq> []" "last s1 = last s"
      by (auto simp: FindLeft_def split: option.splits if_splits)
    from "1.IH"[OF Found x[symmetric] run s1(1)] s1(2) show ?thesis by simp
  qed
qed

lemma assemble_located:
  "assemble ps ls i = Some ss \<Longrightarrow> list_all (located_strip ps) ss"
proof (induction ps ls i arbitrary: ss rule: assemble.induct)
  case (1 ps ls stripId)
  show ?case
  proof (cases "ls = []")
    case True
    with "1.prems" show ?thesis by (simp add: assemble.simps[of ps "[]"])
  next
    case False
    let ?s0 = "[\<lparr>ind = fst (last ls), strip = stripId\<rparr>, \<lparr>ind = snd (last ls), strip = stripId\<rparr>]"
    from "1.prems" False obtain s1 ls1 s2 ls2 rest where
      a: "while_FindRight ps (butlast ls) ?s0 stripId = Some (s1, ls1)"
      and b: "while_FindLeft ps ls1 s1 stripId = Some (s2, ls2)"
      and c: "assemble ps ls2 (stripId + 1) = Some rest"
      and d: "ss = s2 # rest"
      by (auto simp: assemble.simps[of ps ls] split: option.splits)
    from while_FindRight_last[OF a] have s1: "s1 \<noteq> []" "capt_at ps (ind (last s1)) \<noteq> None"
      by simp_all
    from while_FindLeft_hd[OF b s1(1)] s1(2) have "located_strip ps s2"
      by (simp add: located_strip_def)
    moreover from "1.IH"[OF False a refl b refl c] have "list_all (located_strip ps) rest" .
    ultimately show ?thesis using d by simp
  qed
qed

lemma CompleteStrip_located:
  assumes "located_strip ps s"
  shows "located_strip ps (CompleteStrip ps s)"
proof -
  from assms have s: "s \<noteq> []" by (simp add: located_strip_def)
  have 1: "hd (rev (tl s) @ s) = hd s \<or> hd (rev (tl s) @ s) = last s"
    using s by (cases s) (auto simp: hd_append hd_rev)
  have 2: "last (s @ tl (rev s)) = hd s \<or> last (s @ tl (rev s)) = last s"
    using s by (cases s rule: rev_cases) (auto simp: last_rev)
  have 3: "hd (s @ tl (rev s)) = hd s" "last (rev (tl s) @ s) = last s"
    using s by simp_all
  from assms s 1 2 3 show ?thesis
    by (auto simp: CompleteStrip_def located_strip_def split: option.splits)
qed

lemma ends_located_iff:
  "ends_located polyStrips
     = list_all (\<lambda>b. list_all (located_strip (pts (snd b))) (strips (snd b))) polyStrips"
  by (auto simp: ends_located_def list_all_iff located_strip_def)

lemma update_entry_located:
  "ends_located polyStrips \<Longrightarrow> list_all (located_strip (pts v)) (strips v) \<Longrightarrow>
     ends_located (update_entry k v polyStrips)"
  by (induction polyStrips) (auto simp: ends_located_iff)

lemma assemble_polys_located:
  "assemble_polys contLines pls polyStrips = Some polyStrips' \<Longrightarrow> ends_located polyStrips
     \<Longrightarrow> ends_located polyStrips'"
proof (induction pls arbitrary: polyStrips)
  case Nil
  then show ?case by simp
next
  case (Cons pl pls)
  from Cons.prems(1) obtain pStrips ss where
    a: "map_of polyStrips (fst pl) = Some pStrips"
    and b: "assemble (pts pStrips) (assembly_lines contLines (snd pl)) 0 = Some ss"
    and c: "assemble_polys contLines pls
              (update_entry (fst pl) (CompleteStrips (pStrips\<lparr>strips := strips pStrips @ ss\<rparr>)) polyStrips)
            = Some polyStrips'"
    by (auto split: option.splits)
  from a have "(fst pl, pStrips) \<in> set polyStrips" by (rule map_of_SomeD)
  with Cons.prems(2) have "list_all (located_strip (pts pStrips)) (strips pStrips)"
    by (force simp: ends_located_iff list_all_iff)
  with assemble_located[OF b]
  have "list_all (located_strip (pts pStrips)) (strips pStrips @ ss)" by simp
  then have "list_all (located_strip (pts (CompleteStrips (pStrips\<lparr>strips := strips pStrips @ ss\<rparr>))))
      (strips (CompleteStrips (pStrips\<lparr>strips := strips pStrips @ ss\<rparr>)))"
    by (auto simp: CompleteStrips_def list_all_iff intro: CompleteStrip_located)
  from Cons.IH[OF c update_entry_located[OF Cons.prems(2) this]] show ?case .
qed

text \<open>
  The bundles come from their constructor without strips, and \<^verbatim>\<open>GetPolyStrips\<close>
  returns them with the ends of all strips located.
\<close>

lemma GetPolyStrips_ends_located:
  assumes "GetPolyStrips key locate crosses contLines conts = Some (flag, polyStrips)"
    and "list_all (\<lambda>b. strips (snd b) = []) (locate (dedupLines contLines conts))"
  shows "ends_located polyStrips"
proof -
  from assms(2) have "ends_located (locate (dedupLines contLines conts))"
    by (auto simp: ends_located_def list_all_iff)
  with assms(1) show ?thesis
    by (auto simp: GetPolyStrips_guard_silent split: option.splits dest: assemble_polys_located)
qed

subsection \<open>HasArea on the strips of GetPolyStrips\<close>

text \<open>
  \<^verbatim>\<open>HasArea\<close> is called in \<^verbatim>\<open>CleanStrips\<close> and \<^verbatim>\<open>CutCells\<close> on the strips
  of the bundles, which strip assembly and \<^verbatim>\<open>CompleteStrips\<close> have filled and
  \<^verbatim>\<open>CutCells\<close> may have reversed.  The lines of a polygon are different after
  \<^verbatim>\<open>RemoveDuplicates\<close> and every line is taken once, so an assembled strip never
  comes back to a point two steps later; a doubled strip is a palindrome of odd length.
\<close>

lemma same_ends_nrm: "same_ends p q = (nrm p = nrm q)"
  by (cases p; cases q) (auto simp: same_ends_def nrm_def min_def max_def split: if_splits)

lemma nrm_swap: "nrm (y, x) = nrm (x, y)"
  by (auto simp: nrm_def min_def max_def)

lemma sorted_wrt_nrm:
  "sorted_wrt (\<lambda>p q. \<not> same_ends p q) ls \<Longrightarrow> distinct (map nrm ls)"
  by (induction ls) (auto simp: same_ends_nrm)

lemma find_line_split:
  "find_line x ls = Some (y, ls') \<Longrightarrow> \<exists>a l b. ls = a @ l # b \<and> ls' = a @ b \<and> nrm l = nrm (x, y)"
proof (induction ls arbitrary: y ls')
  case Nil
  then show ?case by simp
next
  case (Cons l ls)
  show ?case
  proof (cases "fst l = x \<or> snd l = x")
    case True
    with Cons.prems have "l # ls = [] @ l # ls \<and> ls' = [] @ ls \<and> nrm l = nrm (x, y)"
      by (cases l) (auto simp: nrm_swap split: if_splits)
    then show ?thesis by blast
  next
    case False
    with Cons.prems obtain ls1 where f: "find_line x ls = Some (y, ls1)" and l: "ls' = l # ls1"
      by (auto split: option.splits)
    from Cons.IH[OF f] obtain a m b where "ls = a @ m # b" "ls1 = a @ b" "nrm m = nrm (x, y)"
      by blast
    with l have "l # ls = (l # a) @ m # b \<and> ls' = (l # a) @ b \<and> nrm m = nrm (x, y)"
      by simp
    then show ?thesis by blast
  qed
qed

lemma chain_snoc: "s \<noteq> [] \<Longrightarrow> chain (s @ [p]) = chain s @ [(ind (last s), ind p)]"
  by (induction s rule: chain.induct) auto

lemma chain_cons: "s \<noteq> [] \<Longrightarrow> chain (p # s) = (ind p, ind (hd s)) # chain s"
  by (cases s) auto

lemma length_chain: "length (chain s) = length s - 1"
  by (induction s rule: chain.induct) auto

lemma chain_nth: "k + 1 < length s \<Longrightarrow> chain s ! k = (ind (s ! k), ind (s ! (k + 1)))"
proof (induction s arbitrary: k rule: chain.induct)
  case (1 a b s)
  then show ?case by (cases k) auto
qed auto

lemma FindRight_edges:
  assumes "FindRight ps ls s i = Found (s', ls')" and "s \<noteq> []"
    and "distinct (map nrm (chain s @ ls))"
  shows "s' \<noteq> [] \<and> distinct (map nrm (chain s' @ ls')) \<and> length s \<le> length s'"
proof -
  from assms(1) obtain y where f: "find_line (ind (last s)) ls = Some (y, ls')"
    and s': "s' = s @ [\<lparr>ind = y, strip = i\<rparr>]"
    by (auto simp: FindRight_def split: option.splits if_splits)
  from find_line_split[OF f] obtain a l b where
    "ls = a @ l # b" "ls' = a @ b" "nrm l = nrm (ind (last s), y)" by blast
  with assms(2,3) s' show ?thesis
    by (auto simp: chain_snoc)
qed

lemma FindLeft_edges:
  assumes "FindLeft ps ls s i = Found (s', ls')" and "s \<noteq> []"
    and "distinct (map nrm (chain s @ ls))"
  shows "s' \<noteq> [] \<and> distinct (map nrm (chain s' @ ls')) \<and> length s \<le> length s'"
proof -
  from assms(1) obtain y where f: "find_line (ind (hd s)) ls = Some (y, ls')"
    and s': "s' = \<lparr>ind = y, strip = i\<rparr> # s"
    by (auto simp: FindLeft_def split: option.splits if_splits)
  from find_line_split[OF f] obtain a l b where
    "ls = a @ l # b" "ls' = a @ b" "nrm l = nrm (ind (hd s), y)" by blast
  with assms(2,3) s' show ?thesis
    by (auto simp: chain_cons nrm_swap[of y])
qed

lemma while_FindRight_edges:
  "while_FindRight ps ls s i = Some (s', ls') \<Longrightarrow> s \<noteq> [] \<Longrightarrow> distinct (map nrm (chain s @ ls))
     \<Longrightarrow> s' \<noteq> [] \<and> distinct (map nrm (chain s' @ ls')) \<and> length s \<le> length s'"
proof (induction ps ls s i rule: while_FindRight.induct)
  case (1 ps ls s stripId)
  show ?case
  proof (cases "FindRight ps ls s stripId")
    case Thrown
    with "1.prems" show ?thesis by (simp add: while_FindRight.simps[of ps ls])
  next
    case NotFound
    with "1.prems" show ?thesis by (simp add: while_FindRight.simps[of ps ls])
  next
    case (Found x)
    obtain s1 ls1 where x: "x = (s1, ls1)" by (cases x)
    from "1.prems" Found x have run: "while_FindRight ps ls1 s1 stripId = Some (s', ls')"
      by (simp add: while_FindRight.simps[of ps ls])
    from FindRight_edges[OF Found[unfolded x] "1.prems"(2,3)]
    have s1: "s1 \<noteq> []" "distinct (map nrm (chain s1 @ ls1))" "length s \<le> length s1"
      by simp_all
    from "1.IH"[OF Found x[symmetric] run s1(1,2)] s1(3) show ?thesis by simp
  qed
qed

lemma while_FindLeft_edges:
  "while_FindLeft ps ls s i = Some (s', ls') \<Longrightarrow> s \<noteq> [] \<Longrightarrow> distinct (map nrm (chain s @ ls))
     \<Longrightarrow> s' \<noteq> [] \<and> distinct (map nrm (chain s' @ ls')) \<and> length s \<le> length s'"
proof (induction ps ls s i rule: while_FindLeft.induct)
  case (1 ps ls s stripId)
  show ?case
  proof (cases "FindLeft ps ls s stripId")
    case Thrown
    with "1.prems" show ?thesis by (simp add: while_FindLeft.simps[of ps ls])
  next
    case NotFound
    with "1.prems" show ?thesis by (simp add: while_FindLeft.simps[of ps ls])
  next
    case (Found x)
    obtain s1 ls1 where x: "x = (s1, ls1)" by (cases x)
    from "1.prems" Found x have run: "while_FindLeft ps ls1 s1 stripId = Some (s', ls')"
      by (simp add: while_FindLeft.simps[of ps ls])
    from FindLeft_edges[OF Found[unfolded x] "1.prems"(2,3)]
    have s1: "s1 \<noteq> []" "distinct (map nrm (chain s1 @ ls1))" "length s \<le> length s1"
      by simp_all
    from "1.IH"[OF Found x[symmetric] run s1(1,2)] s1(3) show ?thesis by simp
  qed
qed

lemma distinct_chain_no_return:
  assumes "distinct (map nrm (chain s))"
  shows "no_return s"
proof -
  have "ind (s ! k) \<noteq> ind (s ! (k + 2))" if k: "k + 2 < length s" for k
  proof
    assume e: "ind (s ! k) = ind (s ! (k + 2))"
    from k have "chain s ! k = (ind (s ! k), ind (s ! (k + 1)))"
      "chain s ! (k + 1) = (ind (s ! (k + 1)), ind (s ! (k + 2)))"
      using chain_nth[of k s] chain_nth[of "k + 1" s] by (simp_all add: numeral_2_eq_2)
    with e have "nrm (chain s ! k) = nrm (chain s ! (k + 1))"
      by (simp add: nrm_swap)
    moreover from k have "k < length (chain s)" "k + 1 < length (chain s)"
      by (simp_all add: length_chain)
    ultimately have "map nrm (chain s) ! k = map nrm (chain s) ! (k + 1)"
      "k < length (map nrm (chain s))" "k + 1 < length (map nrm (chain s))"
      by simp_all
    with nth_eq_iff_index_eq[OF assms, of k "k + 1"] show False
      by simp
  qed
  then show ?thesis
    by (auto simp: no_return_def list_all_iff)
qed

lemma assemble_built:
  "assemble ps ls i = Some ss \<Longrightarrow> distinct (map nrm ls)
     \<Longrightarrow> list_all (\<lambda>s. 2 \<le> length s \<and> no_return s) ss"
proof (induction ps ls i arbitrary: ss rule: assemble.induct)
  case (1 ps ls stripId)
  show ?case
  proof (cases "ls = []")
    case True
    with "1.prems" show ?thesis by (simp add: assemble.simps[of ps "[]"])
  next
    case False
    let ?s0 = "[\<lparr>ind = fst (last ls), strip = stripId\<rparr>, \<lparr>ind = snd (last ls), strip = stripId\<rparr>]"
    from "1.prems" False obtain s1 ls1 s2 ls2 rest where
      a: "while_FindRight ps (butlast ls) ?s0 stripId = Some (s1, ls1)"
      and b: "while_FindLeft ps ls1 s1 stripId = Some (s2, ls2)"
      and c: "assemble ps ls2 (stripId + 1) = Some rest"
      and d: "ss = s2 # rest"
      by (auto simp: assemble.simps[of ps ls] split: option.splits)
    from False have "ls = butlast ls @ [last ls]" by simp
    then have "map nrm ls = map nrm (butlast ls) @ [nrm (last ls)]"
      by (metis list.simps(8,9) map_append)
    with "1.prems"(2) have d0: "distinct (map nrm (chain ?s0 @ butlast ls))"
      by auto
    from while_FindRight_edges[OF a _ d0]
    have s1: "s1 \<noteq> []" "distinct (map nrm (chain s1 @ ls1))" "2 \<le> length s1"
      by simp_all
    from while_FindLeft_edges[OF b s1(1,2)] s1(3)
    have s2: "distinct (map nrm (chain s2 @ ls2))" "2 \<le> length s2"
      by simp_all
    from s2(1) have "distinct (map nrm (chain s2))" "distinct (map nrm ls2)"
      by simp_all
    with "1.IH"[OF False a refl b refl c] distinct_chain_no_return[of s2] s2(2) d
    show ?thesis by simp
  qed
qed

lemma palindrome_doubled_left: "s \<noteq> [] \<Longrightarrow> palindrome (rev (tl s) @ s)"
  by (cases s) (simp_all add: palindrome_def rev_map)

lemma palindrome_doubled_right: "s \<noteq> [] \<Longrightarrow> palindrome (s @ tl (rev s))"
  by (cases s rule: rev_cases) (simp_all add: palindrome_def rev_map)

lemma palindrome_ends: "palindrome s \<Longrightarrow> s \<noteq> [] \<Longrightarrow> ind (hd s) = ind (last s)"
proof -
  assume p: "palindrome s" and s: "s \<noteq> []"
  then have "hd (map ind s) = hd (rev (map ind s))" by (simp add: palindrome_def)
  with s show ?thesis by (simp add: hd_map hd_rev last_map)
qed

lemma CompleteStrip_built:
  assumes "built s"
  shows "built (CompleteStrip ps s)"
proof (cases "odd (length s) \<and> palindrome s")
  case True
  from assms have s: "s \<noteq> []" by (auto simp: built_def)
  from palindrome_ends[OF _ s] True have "ind (hd s) = ind (last s)" by simp
  then have "CompleteStrip ps s = s"
    by (auto simp: CompleteStrip_def split: option.splits)
  with assms show ?thesis by simp
next
  case False
  with assms have l: "2 \<le> length s" and s: "s \<noteq> []" by (auto simp: built_def)
  from l have odd1: "odd (length (rev (tl s) @ s))" "odd (length (s @ tl (rev s)))"
    by auto
  from l s have "built (rev (tl s) @ s)" "built (s @ tl (rev s))"
    using odd1 by (auto simp: built_def palindrome_doubled_left palindrome_doubled_right)
  with assms show ?thesis
    by (auto simp: CompleteStrip_def split: option.splits)
qed

lemma built_odd:
  assumes "built s" and "odd (length s)"
  shows "(HasArea s = False) = palindrome s"
proof (cases "palindrome s")
  case True
  from assms have "3 \<le> length s" by (auto simp: built_def elim!: oddE)
  from palindrome_no_area[OF assms(2) this True] True show ?thesis by simp
next
  case False
  with assms have nr: "no_return s" and l: "3 \<le> length s"
    by (auto simp: built_def elim!: oddE)
  from assms(2) l have "length s = 2 * ((length s - 3) div 2) + 3"
    by presburger
  then obtain k where k: "length s = 2 * k + 3" ..
  then have "(length s - 3) div 2 = k" "(length s + 1) div 2 = k + 2" "k \<in> set [0..<length s - 2]"
    by auto
  with nr assms(2) l have "HasArea s"
    by (simp add: HasArea_innermost no_return_def list_all_iff)
  with False show ?thesis by simp
qed

lemma HasArea_rev: "HasArea (rev s) = HasArea s"
proof (cases "odd (length s) \<and> 3 \<le> length s")
  case True
  then have "length s = 2 * ((length s - 3) div 2) + 3"
    by presburger
  then obtain k where k: "length s = 2 * k + 3" ..
  then have i: "(length s - 3) div 2 = k" "(length s + 1) div 2 = k + 2"
    by simp_all
  from k have "rev s ! k = s ! (k + 2)" "rev s ! (k + 2) = s ! k"
    by (simp_all add: rev_nth)
  with True i show ?thesis
    by (auto simp: HasArea_innermost)
next
  case False
  then show ?thesis by (auto simp: HasArea_innermost)
qed

lemma palindrome_rev: "palindrome (rev s) = palindrome s"
  by (auto simp: palindrome_def rev_map)

lemma update_entry_built:
  "all_built polyStrips \<Longrightarrow> list_all built (strips v) \<Longrightarrow> all_built (update_entry k v polyStrips)"
  by (induction polyStrips) (auto simp: all_built_def)

lemma assemble_polys_built:
  "assemble_polys contLines pls polyStrips = Some polyStrips' \<Longrightarrow> all_built polyStrips
     \<Longrightarrow> list_all (\<lambda>pl. distinct (map nrm (assembly_lines contLines (snd pl)))) pls
     \<Longrightarrow> all_built polyStrips'"
proof (induction pls arbitrary: polyStrips)
  case Nil
  then show ?case by simp
next
  case (Cons pl pls)
  from Cons.prems(1) obtain pStrips ss where
    a: "map_of polyStrips (fst pl) = Some pStrips"
    and b: "assemble (pts pStrips) (assembly_lines contLines (snd pl)) 0 = Some ss"
    and c: "assemble_polys contLines pls
              (update_entry (fst pl) (CompleteStrips (pStrips\<lparr>strips := strips pStrips @ ss\<rparr>)) polyStrips)
            = Some polyStrips'"
    by (auto split: option.splits)
  from a have "(fst pl, pStrips) \<in> set polyStrips" by (rule map_of_SomeD)
  with Cons.prems(2) have "list_all built (strips pStrips)"
    by (force simp: all_built_def list_all_iff)
  moreover from Cons.prems(3) have "distinct (map nrm (assembly_lines contLines (snd pl)))"
    by simp
  from assemble_built[OF b this] have "list_all built ss"
    by (auto simp: list_all_iff built_def)
  ultimately have "list_all built (strips pStrips @ ss)" by simp
  then have "list_all built (strips (CompleteStrips (pStrips\<lparr>strips := strips pStrips @ ss\<rparr>)))"
    by (auto simp: CompleteStrips_def list_all_iff intro: CompleteStrip_built)
  from Cons.IH[OF c update_entry_built[OF Cons.prems(2) this]] Cons.prems(3) show ?case by simp
qed

lemma dedupLines_distinct:
  "list_all (\<lambda>pl. distinct (map nrm (assembly_lines contLines (snd pl)))) (dedupLines contLines conts)"
proof -
  have "distinct (map nrm (assembly_lines contLines (RemoveDuplicates contLines ids)))" for ids
    unfolding assembly_lines_def RemoveDuplicates_first_of_ends
    by (rule sorted_wrt_nrm) (rule first_of_ends_distinct_ends)
  then show ?thesis
    by (simp add: dedupLines_def list_all_iff)
qed

lemma GetPolyStrips_built:
  assumes "GetPolyStrips key locate crosses contLines conts = Some (flag, polyStrips)"
    and "list_all (\<lambda>b. strips (snd b) = []) (locate (dedupLines contLines conts))"
  shows "all_built polyStrips"
proof -
  from assms(2) have "all_built (locate (dedupLines contLines conts))"
    by (auto simp: all_built_def list_all_iff)
  with assms(1) show ?thesis
    by (auto simp: GetPolyStrips_guard_silent split: option.splits
        dest: assemble_polys_built[OF _ _ dedupLines_distinct])
qed

text \<open>
  C2.  On every strip of odd length that \<^verbatim>\<open>GetPolyStrips\<close> builds (the bundles
  come from their constructor without strips), and on its reversal, \<^verbatim>\<open>HasArea\<close>
  is false exactly when the indices of the strip form a palindrome.
\<close>

theorem HasArea_false_iff_palindrome:
  assumes "GetPolyStrips key locate crosses contLines conts = Some (flag, polyStrips)"
    and "list_all (\<lambda>b. strips (snd b) = []) (locate (dedupLines contLines conts))"
    and "b \<in> set polyStrips" and "s \<in> set (strips (snd b))" and "odd (length s)"
  shows "(HasArea s = False) = palindrome s \<and> (HasArea (rev s) = False) = palindrome (rev s)"
proof -
  from GetPolyStrips_built[OF assms(1,2)] assms(3,4) have "built s"
    by (auto simp: all_built_def list_all_iff)
  from built_odd[OF this assms(5)] show ?thesis
    by (simp add: HasArea_rev palindrome_rev)
qed

theorem HasArea_false_iff_palindrome_witness:
  "GetPolyStrips id four_lines_B (\<lambda>p. False) four_lines [0, 0, 0, 0] = Some (False, four_lines_stripsB)
   \<and> list_all (\<lambda>b. strips (snd b) = []) (four_lines_B (dedupLines four_lines [0, 0, 0, 0]))
   \<and> hd four_lines_stripsB \<in> set four_lines_stripsB
   \<and> closed_strip \<in> set (strips (snd (hd four_lines_stripsB)))
   \<and> odd (length closed_strip)
   \<and> HasArea closed_strip \<and> \<not> palindrome closed_strip
   \<and> HasArea (rev closed_strip) \<and> \<not> palindrome (rev closed_strip)
   \<and> GetPolyStrips id (two_points Capt_Not (4, 5, 0) (6, 5, 0)) (\<lambda>p. False) double_line [0, 0]
       = Some (False, doubled_strip)
   \<and> list_all (\<lambda>b. strips (snd b) = [])
         (two_points Capt_Not (4, 5, 0) (6, 5, 0) (dedupLines double_line [0, 0]))
   \<and> hd doubled_strip \<in> set doubled_strip
   \<and> doubled_line \<in> set (strips (snd (hd doubled_strip)))
   \<and> odd (length doubled_line)
   \<and> \<not> HasArea doubled_line \<and> palindrome doubled_line
   \<and> \<not> HasArea (rev doubled_line) \<and> palindrome (rev doubled_line)"
proof -
  have run: "GetPolyStrips id four_lines_B (\<lambda>p. False) four_lines [0, 0, 0, 0]
      = Some (False, four_lines_stripsB)"
    by code_simp
  have bare: "list_all (\<lambda>b. strips (snd b) = []) (four_lines_B (dedupLines four_lines [0, 0, 0, 0]))"
    by code_simp
  have b: "hd four_lines_stripsB \<in> set four_lines_stripsB"
    by code_simp
  have s: "closed_strip \<in> set (strips (snd (hd four_lines_stripsB)))"
    by code_simp
  have n: "odd (length closed_strip)"
    by code_simp
  have p: "\<not> palindrome closed_strip" "\<not> palindrome (rev closed_strip)"
    by code_simp+
  have run': "GetPolyStrips id (two_points Capt_Not (4, 5, 0) (6, 5, 0)) (\<lambda>p. False) double_line [0, 0]
      = Some (False, doubled_strip)"
    by code_simp
  have bare': "list_all (\<lambda>b. strips (snd b) = [])
      (two_points Capt_Not (4, 5, 0) (6, 5, 0) (dedupLines double_line [0, 0]))"
    by code_simp
  have b': "hd doubled_strip \<in> set doubled_strip"
    by code_simp
  have s': "doubled_line \<in> set (strips (snd (hd doubled_strip)))"
    by code_simp
  have n': "odd (length doubled_line)"
    by code_simp
  have p': "palindrome doubled_line" "palindrome (rev doubled_line)"
    by code_simp+
  from HasArea_false_iff_palindrome[OF run bare b s n] HasArea_false_iff_palindrome[OF run' bare' b' s' n']
    run bare b s n p run' bare' b' s' n' p'
  show ?thesis by blast
qed

end
